theory Spec2Isabelle
  imports Main "HOL-Library.Word" "HOL-Library.More_List"
begin

unbundle bit_operations_syntax

section \<open>Sprite data of FreeRCT (sprite_data.cpp, sprite_data.h)\<close>

text \<open>
  Machine integers are words of their width (\<open>uint8\<close>, \<open>uint16\<close>, \<open>uint32\<close>); a
  \<open>size_t\<close> length is a natural number. Pointers into a byte buffer are indices into
  the list holding the buffer. A function that can read outside a buffer returns an
  option: \<open>None\<close> is the undefined behaviour of the out-of-range access (or a loop that
  never ends).
\<close>

subsection \<open>Colours (palette.h)\<close>

text \<open>
  Modelled from the spec: palette.h is not among the sources. A 32 bit colour value is
  composed from four 8 bit channels by \<open>MakeRGBA\<close> and taken apart by \<open>GetR\<close>,
  \<open>GetG\<close>, \<open>GetB\<close> and \<open>GetA\<close>; the position of the channels inside the 32 bits
  plays no role in sprite_data.cpp.
\<close>

datatype colour32 = MakeRGBA (GetR: "8 word") (GetG: "8 word") (GetB: "8 word") (GetA: "8 word")

text \<open>
  Modelled from the spec: the opacity of a fully opaque pixel, the largest value of the
  8 bit opacity channel (palette.h is not among the sources).
\<close>

definition OPAQUE :: "8 word" where
  "OPAQUE = 255"

text \<open>
  Recolouring (palette.h, not among the sources) is used through two member functions
  only, which the record holds: \<open>GetPalette(shift)\<close>, a table from 8 bit index to 8 bit
  index, and \<open>GetRecolourTable(layer)\<close>, a table from 8 bit index to colour. The type
  of the gradient shift is a parameter.
\<close>

record 'gs Recolouring =
  GetPalette :: "'gs \<Rightarrow> 8 word \<Rightarrow> 8 word"
  GetRecolourTable :: "int \<Rightarrow> 8 word \<Rightarrow> colour32"

subsection \<open>The byte source (fileio.h)\<close>

text \<open>
  Modelled from the spec: class RcdFileReader of fileio.h is not among the sources. The
  reader holds the 4 character block name, the block version, the block size, and a byte
  source with a read position; \<open>file_data\<close> gives the byte delivered at each position.
  Multi-byte values are little endian, and every read advances the position by the
  number of bytes read.
\<close>

record RcdFileReader =
  name :: string
  version :: "32 word"
  size_rcd :: nat
  file_pos :: nat
  file_data :: "nat \<Rightarrow> 8 word"

definition GetUInt8 :: "RcdFileReader \<Rightarrow> 8 word \<times> RcdFileReader" where
  "GetUInt8 rcd = (file_data rcd (file_pos rcd), rcd\<lparr>file_pos := file_pos rcd + 1\<rparr>)"

definition GetUInt16 :: "RcdFileReader \<Rightarrow> 16 word \<times> RcdFileReader" where
  "GetUInt16 rcd =
     (let (lo, r1) = GetUInt8 rcd; (hi, r2) = GetUInt8 r1
      in (ucast lo OR push_bit 8 (ucast hi), r2))"

definition GetInt16 :: "RcdFileReader \<Rightarrow> 16 word \<times> RcdFileReader" where
  "GetInt16 rcd = GetUInt16 rcd"

definition GetUInt32 :: "RcdFileReader \<Rightarrow> 32 word \<times> RcdFileReader" where
  "GetUInt32 rcd =
     (let (lo, r1) = GetUInt16 rcd; (hi, r2) = GetUInt16 r1
      in (ucast lo OR push_bit 16 (ucast hi), r2))"

definition GetBlob :: "RcdFileReader \<Rightarrow> nat \<Rightarrow> 8 word list \<times> RcdFileReader" where
  "GetBlob rcd n =
     (map (\<lambda>i. file_data rcd (file_pos rcd + i)) [0..<n], rcd\<lparr>file_pos := file_pos rcd + n\<rparr>)"

subsection \<open>ImageData\<close>

text \<open>
  The base class; \<open>xoffset\<close> and \<open>yoffset\<close> are \<open>int16\<close>, read with \<open>sint\<close>.
\<close>

record ImageData =
  flags :: "32 word"
  width :: "16 word"
  height :: "16 word"
  xoffset :: "16 word"
  yoffset :: "16 word"

definition LoadSizes ::
  "RcdFileReader \<Rightarrow> 'a ImageData_scheme \<Rightarrow> nat \<Rightarrow> bool \<times> RcdFileReader \<times> 'a ImageData_scheme" where
  "LoadSizes rcd_file this len =
     (if len < 8 then (False, rcd_file, this)
      else
        let (w, r1) = GetUInt16 rcd_file;
            (h, r2) = GetUInt16 r1;
            (xo, r3) = GetInt16 r2;
            (yo, r4) = GetInt16 r3;
            this' = this\<lparr>width := w, height := h, xoffset := xo, yoffset := yo\<rparr>
        in if w = 0 \<or> w > 300 \<or> h = 0 \<or> h > 500 then (False, r4, this')
           else (len - 8 \<le> 100 * 1024, r4, this'))"

subsection \<open>BlendPixels\<close>

text \<open>
  \<open>r\<close>, \<open>g\<close>, \<open>b\<close> and \<open>opacity\<close> are \<open>uint\<close>; the channels handed to \<open>MakeRGBA\<close>
  are cut to 8 bits.
\<close>

definition BlendPixels :: "32 word \<Rightarrow> 32 word \<Rightarrow> 32 word \<Rightarrow> colour32 \<Rightarrow> 32 word \<Rightarrow> colour32" where
  "BlendPixels r g b old_pixel opacity =
     (let r' = r * opacity + ucast (GetR old_pixel) * (256 - opacity);
          g' = g * opacity + ucast (GetG old_pixel) * (256 - opacity);
          b' = b * opacity + ucast (GetB old_pixel) * (256 - opacity)
      in MakeRGBA (ucast (drop_bit 8 r')) (ucast (drop_bit 8 g')) (ucast (drop_bit 8 b')) OPAQUE)"

subsection \<open>BlitPixel\<close>

text \<open>
  Modelled from the spec: class ClippedRectangle of video.h is not among the sources. Of
  the destination rectangle the code reads the base address, the pitch (the distance
  between two rows, in pixels of the screen array), the width and the height.
\<close>

record ClippedRectangle =
  address :: int
  pitch :: nat
  width_cr :: nat
  height_cr :: nat

text \<open>
  \<open>xmin\<close>, \<open>ymin\<close>, \<open>x\<close>, \<open>xend\<close> and \<open>yend\<close> are \<open>int32\<close>, and the products
  \<open>numx * width\<close>, \<open>numy * height\<close> and \<open>height * cr.pitch\<close> are formed as
  \<open>int\<close>. They are modelled as integers, and \<open>int32\<close> gives the value that a sum
  or a product has in 32 bits, wrapping around as the usual implementations compute it
  (for C++ the overflow of a signed integer is undefined).
\<close>

definition int32 :: "int \<Rightarrow> int" where
  "int32 i = (i + 2 ^ 31) mod 2 ^ 32 - 2 ^ 31"

text \<open>
  The screen array is a store from addresses (counted in 32 bit pixels) to colours, and
  a \<open>uint32 *\<close> is an address. The loops are the two \<open>while\<close> loops of the function;
  \<open>None\<close> is a loop that never ends.
\<close>

type_synonym screen = "int \<Rightarrow> colour32"

partial_function (option) BlitPixel_columns ::
  "ClippedRectangle \<Rightarrow> 16 word \<Rightarrow> colour32 \<Rightarrow> int \<Rightarrow> int \<Rightarrow> int \<Rightarrow> screen \<Rightarrow> screen option" where
  "BlitPixel_columns cr w colour xend scr x mem =
     (if x < xend then
        (if x \<ge> int (width_cr cr) then Some mem
         else BlitPixel_columns cr w colour xend (scr + uint w) (int32 (x + uint w))
                (if x \<ge> 0 then mem(scr := colour) else mem))
      else Some mem)"

partial_function (option) BlitPixel_rows ::
  "ClippedRectangle \<Rightarrow> 16 word \<Rightarrow> 16 word \<Rightarrow> colour32 \<Rightarrow> int \<Rightarrow> int \<Rightarrow> int \<Rightarrow> int \<Rightarrow> int
     \<Rightarrow> screen \<Rightarrow> screen option" where
  "BlitPixel_rows cr w h colour xmin xend yend scr_base ymin mem =
     (if ymin < yend then
        (if ymin \<ge> int (height_cr cr) then Some mem
         else Option.bind
                (if ymin \<ge> 0 then BlitPixel_columns cr w colour xend scr_base xmin mem else Some mem)
                (\<lambda>mem'. BlitPixel_rows cr w h colour xmin xend yend
                           (scr_base + int32 (uint h * int (pitch cr))) (int32 (ymin + uint h)) mem'))
      else Some mem)"

definition BlitPixel ::
  "ClippedRectangle \<Rightarrow> int \<Rightarrow> int \<Rightarrow> int \<Rightarrow> 16 word \<Rightarrow> 16 word \<Rightarrow> 16 word \<Rightarrow> 16 word \<Rightarrow> colour32
     \<Rightarrow> screen \<Rightarrow> screen option" where
  "BlitPixel cr scr_base xmin ymin numx numy w h colour mem =
     (let xend = int32 (xmin + int32 (uint numx * uint w));
          yend = int32 (ymin + int32 (uint numy * uint h))
      in BlitPixel_rows cr w h colour xmin xend yend scr_base ymin mem)"

subsection \<open>ImageData8bpp\<close>

definition INVALID_JUMP :: "32 word" where
  "INVALID_JUMP = 0xFFFFFFFF"

record ImageData8bpp = ImageData +
  table :: "32 word list"
  data :: "8 word list"

text \<open>
  The first loop of \<open>LoadData\<close>: the jump table, entry \<open>i\<close> onwards. \<open>dest\<close> is
  \<open>uint32\<close>, so the subtraction of the table size wraps around.
\<close>

function load_jump_table ::
  "RcdFileReader \<Rightarrow> ImageData8bpp \<Rightarrow> nat \<Rightarrow> nat \<Rightarrow> nat \<Rightarrow> bool \<times> RcdFileReader \<times> ImageData8bpp" where
  "load_jump_table rcd_file this jmp_table len i =
     (if i < unat (height this) then
        (let (dest, rcd1) = GetUInt32 rcd_file in
         if dest = 0 then
           load_jump_table rcd1 (this\<lparr>table := (table this)[i := INVALID_JUMP]\<rparr>) jmp_table len (i + 1)
         else
           (let dest' = dest - of_nat jmp_table in
            if unat dest' \<ge> len then (False, rcd1, this)
            else load_jump_table rcd1 (this\<lparr>table := (table this)[i := dest']\<rparr>) jmp_table len (i + 1)))
      else (True, rcd_file, this))"
  by pat_completeness auto
termination
  by (relation "measure (\<lambda>(rcd_file, this, jmp_table, len, i). unat (height this) - i)") auto

text \<open>
  The inner \<open>for (;;)\<close> loop of the verification: the runs of one row, from
  \<open>offset\<close>. \<open>offset\<close> and \<open>xpos\<close> are \<open>uint32\<close>; \<open>length\<close> is the length of the
  data buffer.
\<close>

partial_function (option) verify_row :: "8 word list \<Rightarrow> 16 word \<Rightarrow> 32 word \<Rightarrow> 32 word \<Rightarrow> bool option" where
  "verify_row dat w offset xpos =
     (if unat (offset + 2) \<ge> length dat then Some False
      else if \<not> (unat offset < length dat \<and> unat (offset + 1) < length dat) then None
      else
        (let rel_pos = dat ! unat offset;
             count = dat ! unat (offset + 1);
             xpos' = xpos + (ucast (rel_pos AND 127) + ucast count);
             offset' = offset + (2 + ucast count)
         in if rel_pos AND 128 = 0 then
              (if xpos' \<ge> ucast w \<or> unat offset' \<ge> length dat then Some False
               else verify_row dat w offset' xpos')
            else
              (if xpos' > ucast w \<or> unat offset' > length dat then Some False
               else Some True)))"

text \<open>The outer loop of the verification, row \<open>i\<close> onwards.\<close>

function verify_rows :: "ImageData8bpp \<Rightarrow> nat \<Rightarrow> bool option" where
  "verify_rows this i =
     (if i < unat (height this) then
        (if \<not> i < length (table this) then None
         else
           (let offset = table this ! i in
            if offset = INVALID_JUMP then verify_rows this (i + 1)
            else
              (case verify_row (data this) (width this) offset 0 of
                 None \<Rightarrow> None
               | Some ok \<Rightarrow> if \<not> ok then Some False else verify_rows this (i + 1))))
      else Some True)"
  by pat_completeness auto
termination
  by (relation "measure (\<lambda>(this, i). unat (height this) - i)") auto

text \<open>
  \<open>LoadData\<close> returns the result, the reader and the image as it leaves them. The
  freshly allocated arrays are filled with zeroes here; the code writes every entry
  before it reads it.
\<close>

definition LoadData8 ::
  "RcdFileReader \<Rightarrow> ImageData8bpp \<Rightarrow> nat \<Rightarrow> (bool \<times> RcdFileReader \<times> ImageData8bpp) option" where
  "LoadData8 rcd_file this len0 =
     (let jmp_table = 4 * unat (height this) in
      if len0 \<le> jmp_table then Some (False, rcd_file, this)
      else
        (let len = len0 - jmp_table;
             this1 = this\<lparr>table := replicate (jmp_table div 4) 0, data := replicate len 0\<rparr>;
             (ok, rcd1, this2) = load_jump_table rcd_file this1 jmp_table len 0
         in if \<not> ok then Some (False, rcd1, this2)
            else
              (let (blob, rcd2) = GetBlob rcd1 len;
                   this3 = this2\<lparr>data := blob\<rparr>
               in case verify_rows this3 0 of
                    None \<Rightarrow> None
                  | Some ok' \<Rightarrow> Some (ok', rcd2, this3))))"

text \<open>
  The \<open>while\<close> loop of \<open>GetPixel\<close>. \<open>xpos\<close> is \<open>uint16\<close>, \<open>offset\<close> is
  \<open>uint32\<close>; \<open>palette\<close> is the global table \<open>_palette\<close> of palette.h, and
  \<open>xoff\<close>, \<open>yoff\<close> are the parameters \<open>xoffset\<close>, \<open>yoffset\<close> (which hide the
  fields of these names).
\<close>

partial_function (option) GetPixel8_loop ::
  "(8 word \<Rightarrow> colour32) \<Rightarrow> 8 word list \<Rightarrow> 'gs Recolouring option \<Rightarrow> 'gs \<Rightarrow> 16 word \<Rightarrow> 32 word \<Rightarrow> 16 word
     \<Rightarrow> colour32 option" where
  "GetPixel8_loop palette dat recolour shift xoff offset xpos =
     (if xpos \<le> xoff then
        (if \<not> (unat offset < length dat \<and> unat (offset + 1) < length dat) then None
         else
           (let rel_pos = dat ! unat offset;
                count = dat ! unat (offset + 1);
                xpos1 = xpos + ucast (rel_pos AND 127)
            in if xpos1 > xoff then Some (palette 0)
               else if uint xoff - uint xpos1 < uint count then
                 (let at = unat (offset + 2 + ucast xoff - ucast xpos1) in
                  if \<not> at < length dat then None
                  else
                    (let pixel = dat ! at in
                     Some (palette (case recolour of
                                      None \<Rightarrow> pixel
                                    | Some rc \<Rightarrow> GetPalette rc shift pixel))))
               else
                 (let xpos2 = xpos1 + ucast count;
                      offset' = offset + (2 + ucast count)
                  in if rel_pos AND 128 \<noteq> 0 then Some (palette 0)
                     else GetPixel8_loop palette dat recolour shift xoff offset' xpos2)))
      else Some (palette 0))"

definition GetPixel8 ::
  "(8 word \<Rightarrow> colour32) \<Rightarrow> ImageData8bpp \<Rightarrow> 16 word \<Rightarrow> 16 word \<Rightarrow> 'gs Recolouring option \<Rightarrow> 'gs
     \<Rightarrow> colour32 option" where
  "GetPixel8 palette this xoff yoff recolour shift =
     (if xoff \<ge> width this then Some (palette 0)
      else if yoff \<ge> height this then Some (palette 0)
      else if \<not> unat yoff < length (table this) then None
      else
        (let offset = table this ! unat yoff in
         if offset = INVALID_JUMP then Some (palette 0)
         else GetPixel8_loop palette (data this) recolour shift xoff offset 0))"

subsection \<open>ImageData32bpp\<close>

text \<open>The data buffer of a 32bpp image is the field \<open>data\<close> of the class.\<close>

record ImageData32bpp = ImageData +
  data32 :: "8 word list"

text \<open>
  The inner \<open>while\<close> loop of the verification: the runs of one line, from \<open>ptr\<close>
  up to \<open>endp\<close> (the pointer \<open>end\<close>). The result is the pointer, \<open>xpos\<close> and
  \<open>finished_line\<close> as the loop leaves them. \<open>xpos\<close> is \<open>uint\<close>.
\<close>

function read_line :: "8 word list \<Rightarrow> nat \<Rightarrow> nat \<Rightarrow> 32 word \<Rightarrow> (nat \<times> 32 word \<times> bool) option" where
  "read_line dat endp ptr xpos =
     (if ptr < endp then
        (if \<not> ptr < length dat then None
         else
           (let mode = dat ! ptr;
                ptr1 = ptr + 1
            in if mode = 0 then Some (ptr1, xpos, True)
               else
                 (let xpos' = xpos + ucast (mode AND 0x3F);
                      kind = drop_bit 6 mode;
                      ptr2 = (if kind = 0 then ptr1 + 3 * unat (mode AND 0x3F)
                              else if kind = 1 then ptr1 + (1 + 3 * unat (mode AND 0x3F))
                              else if kind = 2 then ptr1
                              else ptr1 + (1 + 1 + unat (mode AND 0x3F)))
                  in read_line dat endp ptr2 xpos')))
      else Some (ptr, xpos, False))"
  by pat_completeness auto
termination
  by (relation "measure (\<lambda>(dat, endp, ptr, xpos). endp - ptr)") (auto split: if_splits)

text \<open>
  The outer \<open>while\<close> loop of the verification together with the checks that follow
  it. \<open>abs_end\<close> is the length of the buffer; reading \<open>ptr[1]\<close> is outside the buffer
  when \<open>ptr\<close> is its last byte. The length word of a line counts its own two bytes.
\<close>

function verify_lines :: "8 word list \<Rightarrow> 16 word \<Rightarrow> 16 word \<Rightarrow> nat \<Rightarrow> int \<Rightarrow> bool \<Rightarrow> bool option" where
  "verify_lines dat w h ptr line_count finished =
     (if ptr < length dat \<and> \<not> finished then
        (if \<not> ptr + 1 < length dat then None
         else
           (let line_length = (ucast (dat ! ptr) OR push_bit 8 (ucast (dat ! (ptr + 1))) :: 16 word);
                endp = (if line_length = 0 then length dat else ptr + unat line_length)
            in if line_length \<noteq> 0 \<and> endp > length dat then Some False
               else
                 (case read_line dat endp (ptr + 2) 0 of
                    None \<Rightarrow> None
                  | Some (ptr', xpos, finished_line) \<Rightarrow>
                      if xpos > ucast w then Some False
                      else if \<not> finished_line then Some False
                      else if ptr' \<noteq> endp then Some False
                      else verify_lines dat w h ptr' (line_count + 1) (line_length = 0))))
      else if line_count \<noteq> uint h then Some False
      else if ptr \<noteq> length dat then Some False
      else Some True)"
  by pat_completeness auto
termination
  by (relation "measure (\<lambda>(dat, w, h, ptr, line_count, finished).
        if finished then 0 else Suc (length dat - ptr))")
     (auto simp: unat_gt_0 split: if_splits)

definition LoadData32 ::
  "RcdFileReader \<Rightarrow> ImageData32bpp \<Rightarrow> nat \<Rightarrow> (bool \<times> RcdFileReader \<times> ImageData32bpp) option" where
  "LoadData32 rcd_file this len =
     (let (blob, rcd1) = GetBlob rcd_file len;
          this1 = this\<lparr>data32 := blob\<rparr>
      in case verify_lines blob (width this1) (height this1) 0 0 False of
           None \<Rightarrow> None
         | Some ok \<Rightarrow> Some (ok, rcd1, this1))"

text \<open>
  \<open>GetPixel\<close>: the first loop skips \<open>yoff\<close> lines by their length words, the second
  walks the runs of the line. \<open>sf\<close> is the function that
  \<open>GetGradientShiftFunc(shift)\<close> of palette.h returns.
\<close>

fun skip_lines :: "8 word list \<Rightarrow> nat \<Rightarrow> nat \<Rightarrow> nat option" where
  "skip_lines dat ptr 0 = Some ptr"
| "skip_lines dat ptr (Suc yoff) =
     (if \<not> ptr + 1 < length dat then None
      else skip_lines dat
             (ptr + unat (ucast (dat ! ptr) OR push_bit 8 (ucast (dat ! (ptr + 1))) :: 16 word)) yoff)"

function GetPixel32_loop ::
  "(8 word \<Rightarrow> colour32) \<Rightarrow> 8 word list \<Rightarrow> 'gs Recolouring option \<Rightarrow> (8 word \<Rightarrow> 8 word) \<Rightarrow> nat \<Rightarrow> 16 word
     \<Rightarrow> colour32 option" where
  "GetPixel32_loop palette dat recolour sf ptr xoff =
     (if xoff > 0 then
        (if \<not> ptr < length dat then None
         else
           (let mode = dat ! ptr;
                ptr1 = ptr + 1;
                n = mode AND 0x3F;
                kind = drop_bit 6 mode
            in if mode = 0 then Some (palette 0)
               else if uint n < uint xoff then
                 GetPixel32_loop palette dat recolour sf
                   (if kind = 0 then ptr1 + 3 * unat n
                    else if kind = 1 then ptr1 + (1 + 3 * unat n)
                    else if kind = 2 then ptr1 + 1
                    else ptr1 + (1 + 1 + unat n))
                   (xoff - ucast n)
               else if kind = 0 then
                 (let p = ptr1 + 3 * unat xoff in
                  if \<not> p + 2 < length dat then None
                  else Some (MakeRGBA (sf (dat ! p)) (sf (dat ! (p + 1))) (sf (dat ! (p + 2))) OPAQUE))
               else if kind = 1 then
                 (if \<not> ptr1 < length dat then None
                  else
                    (let opacity = dat ! ptr1;
                         p = ptr1 + (1 + 3 * unat xoff)
                     in if \<not> p + 2 < length dat then None
                        else Some (MakeRGBA (sf (dat ! p)) (sf (dat ! (p + 1))) (sf (dat ! (p + 2))) opacity)))
               else if kind = 2 then Some (palette 0)
               else
                 (if \<not> ptr1 + 1 < length dat then None
                  else
                    (let opacity = dat ! (ptr1 + 1) in
                     case recolour of
                       None \<Rightarrow> Some (MakeRGBA 0 0 0 opacity)
                     | Some rc \<Rightarrow>
                         (let tbl = GetRecolourTable rc (uint (dat ! ptr1) - 1);
                              p = ptr1 + (2 + unat xoff)
                          in if \<not> p < length dat then None
                             else
                               (let recoloured = tbl (dat ! p) in
                                Some (MakeRGBA (sf (GetR recoloured)) (sf (GetG recoloured))
                                        (sf (GetB recoloured)) opacity)))))))
      else Some (palette 0))"
  by pat_completeness auto
termination
  by (relation "measure (\<lambda>(palette, dat, recolour, sf, ptr, xoff). length dat - ptr)")
     (auto split: if_splits)

definition GetPixel32 ::
  "(8 word \<Rightarrow> colour32) \<Rightarrow> ImageData32bpp \<Rightarrow> 16 word \<Rightarrow> 16 word \<Rightarrow> 'gs Recolouring option
     \<Rightarrow> (8 word \<Rightarrow> 8 word) \<Rightarrow> colour32 option" where
  "GetPixel32 palette this xoff yoff recolour sf =
     (if xoff \<ge> width this then Some (palette 0)
      else if yoff \<ge> height this then Some (palette 0)
      else
        (case skip_lines (data32 this) 0 (unat yoff) of
           None \<Rightarrow> None
         | Some ptr \<Rightarrow> GetPixel32_loop palette (data32 this) recolour sf (ptr + 2) xoff))"

subsection \<open>LoadImage\<close>

text \<open>
  The store \<open>_sprites\<close> is a list of loaded images; the pointer that \<open>LoadImage\<close>
  returns is the index of the new image in the store, and \<open>nullptr\<close> is \<open>None\<close>.
  The result also holds the reader and the store as the call leaves them.
\<close>

datatype Sprite = Sprite8 ImageData8bpp | Sprite32 ImageData32bpp

definition IFG_IS_8BPP :: nat where
  "IFG_IS_8BPP = 0"

definition LoadImage ::
  "RcdFileReader \<Rightarrow> Sprite list \<Rightarrow> (nat option \<times> RcdFileReader \<times> Sprite list) option" where
  "LoadImage rcd_file sprites =
     (let is_8bpp = (name rcd_file = ''8PXL'') in
      if version rcd_file \<noteq> (if is_8bpp then 2 else 1) then Some (None, rcd_file, sprites)
      else if is_8bpp then
        (let imd = \<lparr>flags = push_bit IFG_IS_8BPP 1, width = 0, height = 0, xoffset = 0, yoffset = 0,
                     table = [], data = []\<rparr>;
             (ok, rcd1, imd1) = LoadSizes rcd_file imd (size_rcd rcd_file)
         in if \<not> ok then Some (None, rcd1, sprites)
            else
              (case LoadData8 rcd1 imd1 (size_rcd rcd_file - 8) of
                 None \<Rightarrow> None
               | Some (ok', rcd2, imd2) \<Rightarrow>
                   if ok' then Some (Some (length sprites), rcd2, sprites @ [Sprite8 imd2])
                   else Some (None, rcd2, sprites)))
      else
        (let imd = \<lparr>flags = 0, width = 0, height = 0, xoffset = 0, yoffset = 0, data32 = []\<rparr>;
             (ok, rcd1, imd1) = LoadSizes rcd_file imd (size_rcd rcd_file)
         in if \<not> ok then Some (None, rcd1, sprites)
            else
              (case LoadData32 rcd1 imd1 (size_rcd rcd_file - 8) of
                 None \<Rightarrow> None
               | Some (ok', rcd2, imd2) \<Rightarrow>
                   if ok' then Some (Some (length sprites), rcd2, sprites @ [Sprite32 imd2])
                   else Some (None, rcd2, sprites))))"

subsection \<open>Rows of an indexed image, as the format describes them\<close>

text \<open>
  These definitions describe a payload from the side of its writer; they are not part of
  the code. A run is its control byte and its pixels: the low seven bits of the control
  byte are the number of pixels to skip, its high bit marks the last run of the row, and
  the count byte after it is the number of pixels that follow.
\<close>

type_synonym run8 = "8 word \<times> 8 word list"

definition run_width :: "run8 \<Rightarrow> nat" where
  "run_width r = unat (fst r AND 127) + length (snd r)"

text \<open>
  \<open>runs_at dat off runs\<close>: the runs lie in the buffer from offset \<open>off\<close> on, one behind
  the other, and exactly the last one has the high bit.
\<close>

fun runs_at :: "8 word list \<Rightarrow> nat \<Rightarrow> run8 list \<Rightarrow> bool" where
  "runs_at dat off [] = False"
| "runs_at dat off [r] =
     (fst r AND 128 \<noteq> 0 \<and> length (snd r) < 256
      \<and> take (2 + length (snd r)) (drop off dat) = fst r # of_nat (length (snd r)) # snd r)"
| "runs_at dat off (r # r' # rs) =
     (fst r AND 128 = 0 \<and> length (snd r) < 256
      \<and> take (2 + length (snd r)) (drop off dat) = fst r # of_nat (length (snd r)) # snd r
      \<and> runs_at dat (off + 2 + length (snd r)) (r' # rs))"

text \<open>
  What a row of runs has to satisfy in a buffer of \<open>len\<close> bytes for an image of width
  \<open>w\<close>, with \<open>x\<close> pixels before the first run: after every run but the last the
  position is below the width, after the last run it is at most the width, and the two
  bytes at the head of the last run are not the last two bytes of the buffer.
\<close>

fun row_accepted :: "nat \<Rightarrow> nat \<Rightarrow> nat \<Rightarrow> nat \<Rightarrow> run8 list \<Rightarrow> bool" where
  "row_accepted w len off x [] = False"
| "row_accepted w len off x [r] = (x + run_width r \<le> w \<and> off + 2 < len)"
| "row_accepted w len off x (r # r' # rs) =
     (x + run_width r < w
      \<and> row_accepted w len (off + 2 + length (snd r)) (x + run_width r) (r' # rs))"

text \<open>
  The payload behind the reader: entry \<open>i\<close> of the jump table as the code reads it, and
  the \<open>n\<close> bytes of row data behind a jump table of \<open>jmp\<close> bytes.
\<close>

definition jump_entry :: "RcdFileReader \<Rightarrow> nat \<Rightarrow> 32 word" where
  "jump_entry rcd i = fst (GetUInt32 (rcd\<lparr>file_pos := file_pos rcd + 4 * i\<rparr>))"

definition row_data :: "RcdFileReader \<Rightarrow> nat \<Rightarrow> nat \<Rightarrow> 8 word list" where
  "row_data rcd jmp n = fst (GetBlob (rcd\<lparr>file_pos := file_pos rcd + jmp\<rparr>) n)"

text \<open>
  Row \<open>i\<close> of the payload is empty (the jump table entry is 0), or its jump table entry
  leads to offset \<open>off\<close> of the row data, where its runs lie.
\<close>

definition row_layout :: "RcdFileReader \<Rightarrow> nat \<Rightarrow> nat \<Rightarrow> nat \<Rightarrow> (nat \<times> run8 list) option \<Rightarrow> bool" where
  "row_layout rcd jmp n i row =
     (case row of
        None \<Rightarrow> jump_entry rcd i = 0
      | Some (off, runs) \<Rightarrow>
          jump_entry rcd i = of_nat (jmp + off) \<and> off < n \<and> runs_at (row_data rcd jmp n) off runs)"

text \<open>What an empty row or a row of runs at an offset has to satisfy, and all rows of an image.\<close>

definition row_checked :: "nat \<Rightarrow> nat \<Rightarrow> (nat \<times> run8 list) option \<Rightarrow> bool" where
  "row_checked w n row = (case row of None \<Rightarrow> True | Some (off, runs) \<Rightarrow> row_accepted w n off 0 runs)"

definition rows_accepted :: "nat \<Rightarrow> nat \<Rightarrow> nat \<Rightarrow> (nat \<Rightarrow> (nat \<times> run8 list) option) \<Rightarrow> bool" where
  "rows_accepted w n h rows = (\<forall>i. i < h \<longrightarrow> row_checked w n (rows i))"

text \<open>
  The entry of the jump table that the code stores for entry \<open>k\<close> of the payload.
\<close>

definition table_entry :: "RcdFileReader \<Rightarrow> nat \<Rightarrow> nat \<Rightarrow> 32 word" where
  "table_entry rcd jmp k =
     (if jump_entry rcd k = 0 then INVALID_JUMP else jump_entry rcd k - of_nat jmp)"

subsection \<open>Lines of a true colour image, as the format describes them\<close>

text \<open>
  These definitions follow the payload without checking it; they are not part of the
  code. A line starts with its length word, which counts the line from its first byte; a
  length of 0 stands for all bytes up to the end of the buffer.
\<close>

definition line_length :: "8 word list \<Rightarrow> nat \<Rightarrow> nat" where
  "line_length dat ptr =
     unat (ucast (nth_default 0 dat ptr) OR push_bit 8 (ucast (nth_default 0 dat (ptr + 1))) :: 16 word)"

definition line_end :: "8 word list \<Rightarrow> nat \<Rightarrow> nat" where
  "line_end dat ptr = (if line_length dat ptr = 0 then length dat else ptr + line_length dat ptr)"

fun line_start :: "8 word list \<Rightarrow> nat \<Rightarrow> nat" where
  "line_start dat 0 = 0"
| "line_start dat (Suc k) = line_end dat (line_start dat k)"

text \<open>The number of bytes that follow a mode byte in its run.\<close>

definition run_bytes :: "8 word \<Rightarrow> nat" where
  "run_bytes mode =
     (let n = unat (mode AND 0x3F); kind = drop_bit 6 mode
      in if kind = 0 then 3 * n else if kind = 1 then 1 + 3 * n else if kind = 2 then 0 else 1 + 1 + n)"

text \<open>
  The six bit counts of the runs from \<open>ptr\<close> on, up to the mode byte 0 or to \<open>endp\<close>.
\<close>

function run_counts :: "8 word list \<Rightarrow> nat \<Rightarrow> nat \<Rightarrow> nat list" where
  "run_counts dat endp ptr =
     (if ptr < endp \<and> ptr < length dat \<and> dat ! ptr \<noteq> 0
      then unat (dat ! ptr AND 0x3F) # run_counts dat endp (ptr + 1 + run_bytes (dat ! ptr))
      else [])"
  by pat_completeness auto
termination
  by (relation "measure (\<lambda>(dat, endp, ptr). endp - ptr)") auto

definition line_sum :: "8 word list \<Rightarrow> nat \<Rightarrow> nat" where
  "line_sum dat k = sum_list (run_counts dat (line_end dat (line_start dat k)) (line_start dat k + 2))"

subsection \<open>Example inputs\<close>

text \<open>
  A reader at the first byte of a block with the given name, version and bytes; bytes
  past the block read as zero.
\<close>

definition block_reader :: "string \<Rightarrow> 32 word \<Rightarrow> 8 word list \<Rightarrow> RcdFileReader" where
  "block_reader nm ver bytes =
     \<lparr>name = nm, version = ver, size_rcd = length bytes, file_pos = 0, file_data = nth_default 0 bytes\<rparr>"

definition new_ImageData8bpp :: ImageData8bpp where
  "new_ImageData8bpp =
     \<lparr>flags = 0, width = 0, height = 0, xoffset = 0, yoffset = 0, table = [], data = []\<rparr>"

definition new_ImageData32bpp :: ImageData32bpp where
  "new_ImageData32bpp = \<lparr>flags = 0, width = 0, height = 0, xoffset = 0, yoffset = 0, data32 = []\<rparr>"

text \<open>A clipped rectangle of 5 by 5 pixels at the start of a screen with 10 pixels per row.\<close>

definition example_clip :: ClippedRectangle where
  "example_clip = \<lparr>address = 0, pitch = 10, width_cr = 5, height_cr = 5\<rparr>"

definition clear_screen :: screen where
  "clear_screen = (\<lambda>a. MakeRGBA 0 0 0 0)"

text \<open>A palette of fully opaque greys.\<close>

definition grey_palette :: "8 word \<Rightarrow> colour32" where
  "grey_palette i = MakeRGBA i i i OPAQUE"

text \<open>
  A block of an indexed image of width 2 and height 1 with the row \<open>[0x80, 2, 7, 9]\<close>, and the
  image that \<open>LoadImage\<close> makes of it.
\<close>

definition example_block8 :: "8 word list" where
  "example_block8 = [2, 0, 1, 0, 0, 0, 0, 0, 4, 0, 0, 0, 0x80, 2, 7, 9]"

definition example_image8 :: ImageData8bpp where
  "example_image8 =
     \<lparr>flags = 1, width = 2, height = 1, xoffset = 0, yoffset = 0, table = [0], data = [0x80, 2, 7, 9]\<rparr>"

text \<open>The row of the example image as a row of runs, for every row index.\<close>

definition example_rows :: "nat \<Rightarrow> (nat \<times> run8 list) option" where
  "example_rows i = Some (0, [(0x80, [7, 9])])"

section \<open>Properties\<close>

subsection \<open>Words\<close>

lemma unat_byte_less: "unat (b :: 8 word) < 256"
  using unsigned_less [of b] by simp

lemma blend_channel_opaque:
  fixes c o' :: "8 word"
  shows "(ucast (drop_bit 8 (ucast c * 255 + ucast o' * (256 - 255) :: 32 word)) :: 8 word)
           = (if c \<le> o' then c else c - 1)"
proof -
  have c: "unat c < 256" and o: "unat o' < 256"
    by (rule unat_byte_less)+
  have sum: "unat (ucast c * 255 + ucast o' :: 32 word) = unat c * 255 + unat o'"
    using c o by (simp add: unat_word_ariths unsigned_ucast_eq take_bit_eq_mod)
  have "unat (ucast (drop_bit 8 (ucast c * 255 + ucast o' :: 32 word)) :: 8 word)
          = ((unat c * 255 + unat o') div 256) mod 256"
    by (simp add: unsigned_ucast_eq unat_drop_bit_eq sum take_bit_eq_mod drop_bit_eq_div unat_div)
  also have "\<dots> = (if unat c \<le> unat o' then unat c else unat c - 1)"
    using c o by auto
  also have "\<dots> = unat (if c \<le> o' then c else c - 1)"
    by (auto simp: word_le_nat_alt unat_sub)
  finally show ?thesis
    by (simp add: word_unat_eq_iff)
qed

lemma blend_channel_zero:
  fixes c :: "32 word" and o' :: "8 word"
  shows "(ucast (drop_bit 8 (c * 0 + ucast o' * (256 - 0) :: 32 word)) :: 8 word) = o'"
proof -
  have o: "unat o' < 256"
    by (rule unat_byte_less)
  have "unat (ucast o' * 256 :: 32 word) = unat o' * 256"
    using o by (simp add: unat_word_ariths unsigned_ucast_eq take_bit_eq_mod)
  then have "unat (ucast (drop_bit 8 (ucast o' * 256 :: 32 word)) :: 8 word) = unat o'"
    using o by (simp add: unsigned_ucast_eq unat_drop_bit_eq take_bit_eq_mod drop_bit_eq_div unat_div)
  then show ?thesis
    by (simp add: word_unat_eq_iff)
qed

subsection \<open>BlendPixels\<close>

text \<open>
  C6, as the code has it: with the opacity of a fully opaque pixel, every channel of the
  result is the channel of the new colour where the old channel is at least as large,
  and one less otherwise; with opacity zero the red, green and blue channels of the old
  pixel are kept. In both cases the result is fully opaque.
\<close>

theorem BlendPixels_opaque_and_zero:
  fixes r g b :: "8 word"
  shows "BlendPixels (ucast r) (ucast g) (ucast b) old_pixel (ucast OPAQUE)
           = MakeRGBA (if r \<le> GetR old_pixel then r else r - 1)
                      (if g \<le> GetG old_pixel then g else g - 1)
                      (if b \<le> GetB old_pixel then b else b - 1) OPAQUE
         \<and> BlendPixels r' g' b' old_pixel 0
           = MakeRGBA (GetR old_pixel) (GetG old_pixel) (GetB old_pixel) OPAQUE"
proof
  show "BlendPixels (ucast r) (ucast g) (ucast b) old_pixel (ucast OPAQUE)
           = MakeRGBA (if r \<le> GetR old_pixel then r else r - 1)
                      (if g \<le> GetG old_pixel then g else g - 1)
                      (if b \<le> GetB old_pixel then b else b - 1) OPAQUE"
    unfolding BlendPixels_def Let_def OPAQUE_def
    using blend_channel_opaque [of r "GetR old_pixel"] blend_channel_opaque [of g "GetG old_pixel"]
      blend_channel_opaque [of b "GetB old_pixel"]
    by simp
  show "BlendPixels r' g' b' old_pixel 0
           = MakeRGBA (GetR old_pixel) (GetG old_pixel) (GetB old_pixel) OPAQUE"
    unfolding BlendPixels_def Let_def
    using blend_channel_zero [of r' "GetR old_pixel"] blend_channel_zero [of g' "GetG old_pixel"]
      blend_channel_zero [of b' "GetB old_pixel"]
    by simp
qed

text \<open>
  C6 as stated fails: white blended with full opacity over black is not white, and a
  blend with opacity zero over a pixel that is not fully opaque changes that pixel.
\<close>

theorem BlendPixels_identity_counterexample:
  "BlendPixels 255 255 255 (MakeRGBA 0 0 0 OPAQUE) (ucast OPAQUE) \<noteq> MakeRGBA 255 255 255 OPAQUE
   \<and> BlendPixels 1 2 3 (MakeRGBA 9 9 9 7) 0 \<noteq> MakeRGBA 9 9 9 7"
  by (simp add: BlendPixels_def Let_def OPAQUE_def)

text \<open>
  C10: the opacity channel of every blended pixel is \<open>OPAQUE\<close>; with opacity zero the
  red, green and blue channels are those of the old pixel, so that for an old pixel that
  is not fully opaque only the opacity channel changes.
\<close>

theorem BlendPixels_result_opaque:
  "GetA (BlendPixels r g b old_pixel opacity) = OPAQUE
   \<and> GetR (BlendPixels r g b old_pixel 0) = GetR old_pixel
   \<and> GetG (BlendPixels r g b old_pixel 0) = GetG old_pixel
   \<and> GetB (BlendPixels r g b old_pixel 0) = GetB old_pixel
   \<and> GetA (BlendPixels r g b (MakeRGBA 9 9 9 7) 0) \<noteq> GetA (MakeRGBA 9 9 9 7)"
proof -
  have alpha: "GetA (BlendPixels r g b p opacity) = OPAQUE" for p
    by (simp add: BlendPixels_def Let_def)
  have zero: "BlendPixels r g b old_pixel 0 = MakeRGBA (GetR old_pixel) (GetG old_pixel) (GetB old_pixel) OPAQUE"
    unfolding BlendPixels_def Let_def
    using blend_channel_zero [of r "GetR old_pixel"] blend_channel_zero [of g "GetG old_pixel"]
      blend_channel_zero [of b "GetB old_pixel"]
    by simp
  have changed: "GetA (BlendPixels r g b (MakeRGBA 9 9 9 7) 0) \<noteq> GetA (MakeRGBA 9 9 9 7)"
    by (simp add: BlendPixels_def Let_def OPAQUE_def)
  show ?thesis
    using alpha zero changed by simp
qed

subsection \<open>LoadSizes\<close>

text \<open>
  C7, as the code has it: \<open>LoadSizes\<close> leaves the reader 8 bytes further whenever the
  length is at least 8, whatever it returns; with a length below 8 it returns before
  reading and leaves the reader where it was.
\<close>

theorem LoadSizes_advances_reader:
  "fst (snd (LoadSizes rcd_file this len))
     = rcd_file\<lparr>file_pos := file_pos rcd_file + (if len < 8 then 0 else 8)\<rparr>
   \<and> (if len < 8 then fst (LoadSizes rcd_file this len) = False
                        \<and> snd (snd (LoadSizes rcd_file this len)) = this
       else True)"
  by (simp add: LoadSizes_def GetUInt16_def GetInt16_def GetUInt8_def Let_def split: prod.splits)

theorem LoadSizes_advances_reader_witness:
  "file_pos (fst (snd (LoadSizes (block_reader ''8PXL'' 2 [0, 0, 1, 0, 0, 0, 0, 0]) new_ImageData8bpp 8))) = 8
   \<and> fst (LoadSizes (block_reader ''8PXL'' 2 [0, 0, 1, 0, 0, 0, 0, 0]) new_ImageData8bpp 8) = False"
  using LoadSizes_advances_reader
    [of "block_reader ''8PXL'' 2 [0, 0, 1, 0, 0, 0, 0, 0]" new_ImageData8bpp 8]
  by (simp add: block_reader_def LoadSizes_def GetUInt16_def GetInt16_def GetUInt8_def
      nth_default_def new_ImageData8bpp_def)

text \<open>
  C7 as stated fails: with 7 bytes left the header is not consumed.
\<close>

theorem LoadSizes_short_counterexample:
  "file_pos (fst (snd (LoadSizes (block_reader ''8PXL'' 2 [2, 0, 1, 0, 0, 0, 0]) new_ImageData8bpp 7)))
     \<noteq> file_pos (block_reader ''8PXL'' 2 [2, 0, 1, 0, 0, 0, 0]) + 8"
  by (simp add: LoadSizes_def block_reader_def)

subsection \<open>BlitPixel\<close>

lemma int32_id: "- (2 ^ 31) \<le> i \<Longrightarrow> i < 2 ^ 31 \<Longrightarrow> int32 i = i"
  by (simp add: int32_def)

lemma int32_product: "0 \<le> i \<Longrightarrow> i < 2 ^ 31 \<Longrightarrow> int32 i = i"
  by (simp add: int32_def)

lemma int32_sum: "- (2 ^ 31) \<le> x \<Longrightarrow> 0 \<le> i \<Longrightarrow> x + i < 2 ^ 31 \<Longrightarrow> int32 (x + i) = x + i"
  by (simp add: int32_def)

text \<open>
  The inner loop, \<open>n\<close> tiles before \<open>xend\<close>, with \<open>xend\<close> in the range of
  \<open>int32\<close>: it ends, and changes the screen only at addresses \<open>scr + k * w\<close> whose
  column \<open>x + k * w\<close> lies in the clipped rectangle and before \<open>xend\<close>.
\<close>

lemma BlitPixel_columns_safe:
  assumes "xend = x + int n * uint w" and "- (2 ^ 31) \<le> x" and "xend < 2 ^ 31"
  shows "\<exists>mem'. BlitPixel_columns cr w colour xend scr x mem = Some mem' \<and>
           (\<forall>a. mem' a \<noteq> mem a \<longrightarrow>
              (\<exists>k::nat. 0 \<le> x + int k * uint w \<and> x + int k * uint w < xend
                 \<and> x + int k * uint w < int (width_cr cr) \<and> a = scr + int k * uint w))"
  using assms(1,2)
proof (induction n arbitrary: scr x mem)
  case 0
  then have "BlitPixel_columns cr w colour xend scr x mem = Some mem"
    by (subst BlitPixel_columns.simps) simp
  then show ?case by simp
next
  case (Suc n)
  show ?case
  proof (cases "x < xend \<and> x < int (width_cr cr)")
    case False
    then have "BlitPixel_columns cr w colour xend scr x mem = Some mem"
      by (subst BlitPixel_columns.simps) auto
    then show ?thesis by simp
  next
    case True
    have next_x: "xend = x + uint w + int n * uint w"
      using Suc.prems(1) by (simp add: algebra_simps)
    have "0 \<le> int n * uint w"
      by simp
    with next_x have "x + uint w \<le> xend"
      by linarith
    with assms(3) Suc.prems(2) have fits: "- (2 ^ 31) \<le> x + uint w" "x + uint w < 2 ^ 31"
      using uint_nonnegative [of w] by linarith+
    then have wrap: "int32 (x + uint w) = x + uint w"
      by (rule int32_id)
    define mem1 where "mem1 = (if x \<ge> 0 then mem(scr := colour) else mem)"
    have step: "BlitPixel_columns cr w colour xend scr x mem
                  = BlitPixel_columns cr w colour xend (scr + uint w) (x + uint w) mem1"
      using True by (subst BlitPixel_columns.simps) (simp add: mem1_def wrap)
    from Suc.IH [OF next_x fits(1), of "scr + uint w" mem1]
    obtain mem' where run: "BlitPixel_columns cr w colour xend (scr + uint w) (x + uint w) mem1 = Some mem'"
      and frame: "\<And>a. mem' a \<noteq> mem1 a \<Longrightarrow>
              \<exists>k::nat. 0 \<le> x + uint w + int k * uint w \<and> x + uint w + int k * uint w < xend
                 \<and> x + uint w + int k * uint w < int (width_cr cr) \<and> a = scr + uint w + int k * uint w"
      by blast
    have "\<exists>k::nat. 0 \<le> x + int k * uint w \<and> x + int k * uint w < xend
                 \<and> x + int k * uint w < int (width_cr cr) \<and> a = scr + int k * uint w"
      if neq: "mem' a \<noteq> mem a" for a
    proof (cases "mem' a \<noteq> mem1 a")
      case True
      from frame [OF this] obtain k :: nat where
        "0 \<le> x + uint w + int k * uint w \<and> x + uint w + int k * uint w < xend
           \<and> x + uint w + int k * uint w < int (width_cr cr) \<and> a = scr + uint w + int k * uint w"
        by blast
      then have "0 \<le> x + int (Suc k) * uint w \<and> x + int (Suc k) * uint w < xend
                 \<and> x + int (Suc k) * uint w < int (width_cr cr) \<and> a = scr + int (Suc k) * uint w"
        by (simp add: algebra_simps)
      then show ?thesis by blast
    next
      case False
      with neq have "mem1 a \<noteq> mem a" by simp
      then have "0 \<le> x \<and> a = scr"
        by (auto simp: mem1_def split: if_splits)
      with \<open>x < xend \<and> x < int (width_cr cr)\<close>
      have "0 \<le> x + int 0 * uint w \<and> x + int 0 * uint w < xend
                 \<and> x + int 0 * uint w < int (width_cr cr) \<and> a = scr + int 0 * uint w"
        by simp
      then show ?thesis by blast
    qed
    with step run show ?thesis by simp
  qed
qed

text \<open>
  The outer loop, \<open>n\<close> rows of tiles before \<open>yend\<close>: it ends, and changes the screen
  only inside the clipped rectangle.
\<close>

lemma BlitPixel_rows_safe:
  assumes "xend = xmin + int m * uint w" and "- (2 ^ 31) \<le> xmin" and "xend < 2 ^ 31"
    and "uint h * int (pitch cr) < 2 ^ 31" and "yend < 2 ^ 31"
    and "yend = ymin + int n * uint h" and "- (2 ^ 31) \<le> ymin"
  shows "\<exists>mem'. BlitPixel_rows cr w h colour xmin xend yend scr_base ymin mem = Some mem' \<and>
           (\<forall>a. mem' a \<noteq> mem a \<longrightarrow>
              (\<exists>j k::nat. 0 \<le> ymin + int j * uint h \<and> ymin + int j * uint h < yend
                 \<and> ymin + int j * uint h < int (height_cr cr)
                 \<and> 0 \<le> xmin + int k * uint w \<and> xmin + int k * uint w < xend
                 \<and> xmin + int k * uint w < int (width_cr cr)
                 \<and> a = scr_base + int j * (uint h * int (pitch cr)) + int k * uint w))"
  using assms(6,7)
proof (induction n arbitrary: scr_base ymin mem)
  case 0
  then have "BlitPixel_rows cr w h colour xmin xend yend scr_base ymin mem = Some mem"
    by (subst BlitPixel_rows.simps) simp
  then show ?case by simp
next
  case (Suc n)
  show ?case
  proof (cases "ymin < yend \<and> ymin < int (height_cr cr)")
    case False
    then have "BlitPixel_rows cr w h colour xmin xend yend scr_base ymin mem = Some mem"
      by (subst BlitPixel_rows.simps) auto
    then show ?thesis by simp
  next
    case True
    have next_y: "yend = ymin + uint h + int n * uint h"
      using Suc.prems(1) by (simp add: algebra_simps)
    have "0 \<le> int n * uint h"
      by simp
    with next_y have "ymin + uint h \<le> yend"
      by linarith
    with assms(5) Suc.prems(2) have fits: "- (2 ^ 31) \<le> ymin + uint h" "ymin + uint h < 2 ^ 31"
      using uint_nonnegative [of h] by linarith+
    then have wrap_y: "int32 (ymin + uint h) = ymin + uint h"
      by (rule int32_id)
    have "0 \<le> uint h * int (pitch cr)"
      by simp
    then have wrap_p: "int32 (uint h * int (pitch cr)) = uint h * int (pitch cr)"
      using assms(4) by (rule int32_product)
    obtain mem1 where row: "(if ymin \<ge> 0 then BlitPixel_columns cr w colour xend scr_base xmin mem else Some mem) = Some mem1"
      and frame1: "\<And>a. mem1 a \<noteq> mem a \<Longrightarrow> 0 \<le> ymin \<and>
              (\<exists>k::nat. 0 \<le> xmin + int k * uint w \<and> xmin + int k * uint w < xend
                 \<and> xmin + int k * uint w < int (width_cr cr) \<and> a = scr_base + int k * uint w)"
    proof (cases "ymin \<ge> 0")
      case True
      from BlitPixel_columns_safe [OF assms(1,2,3), of cr colour scr_base mem]
      obtain m where m: "BlitPixel_columns cr w colour xend scr_base xmin mem = Some m"
        "\<forall>a. m a \<noteq> mem a \<longrightarrow>
              (\<exists>k::nat. 0 \<le> xmin + int k * uint w \<and> xmin + int k * uint w < xend
                 \<and> xmin + int k * uint w < int (width_cr cr) \<and> a = scr_base + int k * uint w)"
        by blast
      show ?thesis
      proof (rule that [of m])
        show "(if ymin \<ge> 0 then BlitPixel_columns cr w colour xend scr_base xmin mem else Some mem) = Some m"
          using True m(1) by simp
      next
        fix a assume "m a \<noteq> mem a"
        with m(2) True show "0 \<le> ymin \<and>
              (\<exists>k::nat. 0 \<le> xmin + int k * uint w \<and> xmin + int k * uint w < xend
                 \<and> xmin + int k * uint w < int (width_cr cr) \<and> a = scr_base + int k * uint w)"
          by blast
      qed
    next
      case False
      show ?thesis
      proof (rule that [of mem])
        show "(if ymin \<ge> 0 then BlitPixel_columns cr w colour xend scr_base xmin mem else Some mem) = Some mem"
          using False by simp
      next
        fix a assume "mem a \<noteq> mem a"
        then show "0 \<le> ymin \<and>
              (\<exists>k::nat. 0 \<le> xmin + int k * uint w \<and> xmin + int k * uint w < xend
                 \<and> xmin + int k * uint w < int (width_cr cr) \<and> a = scr_base + int k * uint w)"
          by simp
      qed
    qed
    have step: "BlitPixel_rows cr w h colour xmin xend yend scr_base ymin mem
                  = BlitPixel_rows cr w h colour xmin xend yend (scr_base + uint h * int (pitch cr)) (ymin + uint h) mem1"
      using True row by (subst BlitPixel_rows.simps) (simp add: wrap_y wrap_p)
    from Suc.IH [OF next_y fits(1), of "scr_base + uint h * int (pitch cr)" mem1]
    obtain mem' where run: "BlitPixel_rows cr w h colour xmin xend yend (scr_base + uint h * int (pitch cr)) (ymin + uint h) mem1 = Some mem'"
      and frame: "\<And>a. mem' a \<noteq> mem1 a \<Longrightarrow>
              \<exists>j k::nat. 0 \<le> ymin + uint h + int j * uint h \<and> ymin + uint h + int j * uint h < yend
                 \<and> ymin + uint h + int j * uint h < int (height_cr cr)
                 \<and> 0 \<le> xmin + int k * uint w \<and> xmin + int k * uint w < xend
                 \<and> xmin + int k * uint w < int (width_cr cr)
                 \<and> a = scr_base + uint h * int (pitch cr) + int j * (uint h * int (pitch cr)) + int k * uint w"
      by blast
    have "\<exists>j k::nat. 0 \<le> ymin + int j * uint h \<and> ymin + int j * uint h < yend
                 \<and> ymin + int j * uint h < int (height_cr cr)
                 \<and> 0 \<le> xmin + int k * uint w \<and> xmin + int k * uint w < xend
                 \<and> xmin + int k * uint w < int (width_cr cr)
                 \<and> a = scr_base + int j * (uint h * int (pitch cr)) + int k * uint w"
      if neq: "mem' a \<noteq> mem a" for a
    proof (cases "mem' a \<noteq> mem1 a")
      case True
      from frame [OF this] obtain j k :: nat where
        "0 \<le> ymin + uint h + int j * uint h \<and> ymin + uint h + int j * uint h < yend
                 \<and> ymin + uint h + int j * uint h < int (height_cr cr)
                 \<and> 0 \<le> xmin + int k * uint w \<and> xmin + int k * uint w < xend
                 \<and> xmin + int k * uint w < int (width_cr cr)
                 \<and> a = scr_base + uint h * int (pitch cr) + int j * (uint h * int (pitch cr)) + int k * uint w"
        by blast
      then have "0 \<le> ymin + int (Suc j) * uint h \<and> ymin + int (Suc j) * uint h < yend
                 \<and> ymin + int (Suc j) * uint h < int (height_cr cr)
                 \<and> 0 \<le> xmin + int k * uint w \<and> xmin + int k * uint w < xend
                 \<and> xmin + int k * uint w < int (width_cr cr)
                 \<and> a = scr_base + int (Suc j) * (uint h * int (pitch cr)) + int k * uint w"
        by (simp add: algebra_simps)
      then show ?thesis by blast
    next
      case False
      with neq have "mem1 a \<noteq> mem a" by simp
      from frame1 [OF this] obtain k :: nat where
        "0 \<le> ymin" "0 \<le> xmin + int k * uint w \<and> xmin + int k * uint w < xend
                 \<and> xmin + int k * uint w < int (width_cr cr) \<and> a = scr_base + int k * uint w"
        by blast
      with \<open>ymin < yend \<and> ymin < int (height_cr cr)\<close>
      have "0 \<le> ymin + int 0 * uint h \<and> ymin + int 0 * uint h < yend
                 \<and> ymin + int 0 * uint h < int (height_cr cr)
                 \<and> 0 \<le> xmin + int k * uint w \<and> xmin + int k * uint w < xend
                 \<and> xmin + int k * uint w < int (width_cr cr)
                 \<and> a = scr_base + int 0 * (uint h * int (pitch cr)) + int k * uint w"
        by simp
      then show ?thesis by blast
    qed
    with step run show ?thesis by simp
  qed
qed

lemma tile_index_less:
  fixes x :: int
  assumes "x + int k * uint w < x + uint n * uint w"
  shows "k < unat n"
proof -
  have less: "int k * uint w < uint n * uint w"
    using assms by simp
  have "\<not> uint n \<le> int k"
  proof
    assume "uint n \<le> int k"
    then have "uint n * uint w \<le> int k * uint w"
      by (rule mult_right_mono) simp
    with less show False by linarith
  qed
  moreover have "uint n = int (unat n)"
    by simp
  ultimately show ?thesis
    by linarith
qed

text \<open>
  C5. Take a call in which no computation on \<open>int32\<close> overflows: \<open>xmin\<close> and
  \<open>ymin\<close> are values of \<open>int32\<close>, and the products \<open>numx * width\<close>,
  \<open>numy * height\<close> and \<open>height * cr.pitch\<close> and the sums \<open>xmin + numx * width\<close> and
  \<open>ymin + numy * height\<close> are below \<open>2 ^ 31\<close>. Then \<open>BlitPixel\<close> returns, and every
  address of the screen that it changes is the address of a tile position
  \<open>(xmin + i * width, ymin + j * height)\<close>, \<open>i < numx\<close>, \<open>j < numy\<close>, with
  \<open>0 \<le> x < cr.width\<close> and \<open>0 \<le> y < cr.height\<close>; every other address keeps its colour.
\<close>

theorem BlitPixel_within_clip:
  assumes "- (2 ^ 31) \<le> xmin" and "- (2 ^ 31) \<le> ymin"
    and "uint numx * uint w < 2 ^ 31" and "xmin + uint numx * uint w < 2 ^ 31"
    and "uint numy * uint h < 2 ^ 31" and "ymin + uint numy * uint h < 2 ^ 31"
    and "uint h * int (pitch cr) < 2 ^ 31"
  shows "\<exists>mem'. BlitPixel cr scr_base xmin ymin numx numy w h colour mem = Some mem' \<and>
     (\<forall>a. mem' a \<noteq> mem a \<longrightarrow>
        (\<exists>i j. i < unat numx \<and> j < unat numy
           \<and> 0 \<le> xmin + int i * uint w \<and> xmin + int i * uint w < int (width_cr cr)
           \<and> 0 \<le> ymin + int j * uint h \<and> ymin + int j * uint h < int (height_cr cr)
           \<and> a = scr_base + int j * (uint h * int (pitch cr)) + int i * uint w))"
proof -
  define xend where "xend = xmin + uint numx * uint w"
  define yend where "yend = ymin + uint numy * uint h"
  have px: "0 \<le> uint numx * uint w" and py: "0 \<le> uint numy * uint h"
    by simp_all
  have "int32 (uint numx * uint w) = uint numx * uint w"
    using px assms(3) by (rule int32_product)
  moreover have "int32 (xmin + uint numx * uint w) = xmin + uint numx * uint w"
    using assms(1) px assms(4) by (rule int32_sum)
  ultimately have wrap_x: "int32 (xmin + int32 (uint numx * uint w)) = xend"
    by (simp add: xend_def)
  have "int32 (uint numy * uint h) = uint numy * uint h"
    using py assms(5) by (rule int32_product)
  moreover have "int32 (ymin + uint numy * uint h) = ymin + uint numy * uint h"
    using assms(2) py assms(6) by (rule int32_sum)
  ultimately have wrap_y: "int32 (ymin + int32 (uint numy * uint h)) = yend"
    by (simp add: yend_def)
  have tiles_x: "xend = xmin + int (unat numx) * uint w"
    and tiles_y: "yend = ymin + int (unat numy) * uint h"
    by (simp_all add: xend_def yend_def)
  have small_x: "xend < 2 ^ 31" and small_y: "yend < 2 ^ 31"
    using assms(4,6) by (simp_all add: xend_def yend_def)
  from BlitPixel_rows_safe [OF tiles_x assms(1) small_x assms(7) small_y tiles_y assms(2),
      of colour scr_base mem]
  obtain mem' where run: "BlitPixel_rows cr w h colour xmin xend yend scr_base ymin mem = Some mem'"
    and frame: "\<And>a. mem' a \<noteq> mem a \<Longrightarrow>
              (\<exists>j k::nat. 0 \<le> ymin + int j * uint h \<and> ymin + int j * uint h < yend
                 \<and> ymin + int j * uint h < int (height_cr cr)
                 \<and> 0 \<le> xmin + int k * uint w \<and> xmin + int k * uint w < xend
                 \<and> xmin + int k * uint w < int (width_cr cr)
                 \<and> a = scr_base + int j * (uint h * int (pitch cr)) + int k * uint w)"
    by blast
  have run': "BlitPixel cr scr_base xmin ymin numx numy w h colour mem = Some mem'"
    using run by (simp only: BlitPixel_def Let_def wrap_x wrap_y)
  have inside: "\<exists>i j. i < unat numx \<and> j < unat numy
           \<and> 0 \<le> xmin + int i * uint w \<and> xmin + int i * uint w < int (width_cr cr)
           \<and> 0 \<le> ymin + int j * uint h \<and> ymin + int j * uint h < int (height_cr cr)
           \<and> a = scr_base + int j * (uint h * int (pitch cr)) + int i * uint w"
    if "mem' a \<noteq> mem a" for a
  proof -
    from frame [OF that] obtain j k :: nat where jk:
      "0 \<le> ymin + int j * uint h" "ymin + int j * uint h < yend"
      "ymin + int j * uint h < int (height_cr cr)"
      "0 \<le> xmin + int k * uint w" "xmin + int k * uint w < xend"
      "xmin + int k * uint w < int (width_cr cr)"
      "a = scr_base + int j * (uint h * int (pitch cr)) + int k * uint w"
      by blast
    have "k < unat numx"
      using jk(5) unfolding xend_def by (rule tile_index_less)
    moreover have "j < unat numy"
      using jk(2) unfolding yend_def by (rule tile_index_less)
    ultimately show ?thesis
      using jk(1,3,4,6,7) by (intro exI [of _ k] exI [of _ j]) simp
  qed
  show ?thesis
  proof (rule exI [of _ mem'], intro conjI allI impI)
    show "BlitPixel cr scr_base xmin ymin numx numy w h colour mem = Some mem'"
      by (rule run')
  next
    fix a
    assume "mem' a \<noteq> mem a"
    then show "\<exists>i j. i < unat numx \<and> j < unat numy
           \<and> 0 \<le> xmin + int i * uint w \<and> xmin + int i * uint w < int (width_cr cr)
           \<and> 0 \<le> ymin + int j * uint h \<and> ymin + int j * uint h < int (height_cr cr)
           \<and> a = scr_base + int j * (uint h * int (pitch cr)) + int i * uint w"
      by (rule inside)
  qed
qed

lemma BlitPixel_example: "BlitPixel example_clip 0 (- 2) 1 3 3 2 2 (MakeRGBA 1 2 3 OPAQUE) clear_screen
                  = Some (clear_screen(2 := MakeRGBA 1 2 3 OPAQUE, 4 := MakeRGBA 1 2 3 OPAQUE,
                                        22 := MakeRGBA 1 2 3 OPAQUE, 24 := MakeRGBA 1 2 3 OPAQUE))"
  apply (simp add: BlitPixel_def example_clip_def int32_def)
  apply (subst BlitPixel_rows.simps, simp add: BlitPixel_columns.simps int32_def)
  apply (subst BlitPixel_rows.simps, simp add: BlitPixel_columns.simps int32_def)
  apply (subst BlitPixel_rows.simps, simp add: BlitPixel_columns.simps int32_def)
  done

theorem BlitPixel_within_clip_witness:
  "- (2 ^ 31) \<le> (- 2 :: int) \<and> - (2 ^ 31) \<le> (1 :: int)
   \<and> uint (3 :: 16 word) * uint (2 :: 16 word) < 2 ^ 31
   \<and> - 2 + uint (3 :: 16 word) * uint (2 :: 16 word) < 2 ^ 31
   \<and> 1 + uint (3 :: 16 word) * uint (2 :: 16 word) < 2 ^ 31
   \<and> uint (2 :: 16 word) * int (pitch example_clip) < 2 ^ 31
   \<and> (\<exists>mem'. BlitPixel example_clip 0 (- 2) 1 3 3 2 2 (MakeRGBA 1 2 3 OPAQUE) clear_screen = Some mem'
      \<and> mem' 24 \<noteq> clear_screen 24
      \<and> (\<exists>i j. i < unat (3 :: 16 word) \<and> j < unat (3 :: 16 word)
           \<and> 0 \<le> - 2 + int i * uint (2 :: 16 word)
           \<and> - 2 + int i * uint (2 :: 16 word) < int (width_cr example_clip)
           \<and> 0 \<le> 1 + int j * uint (2 :: 16 word)
           \<and> 1 + int j * uint (2 :: 16 word) < int (height_cr example_clip)
           \<and> (24 :: int) = 0 + int j * (uint (2 :: 16 word) * int (pitch example_clip)) + int i * uint (2 :: 16 word)))"
proof -
  have h1: "- (2 ^ 31) \<le> (- 2 :: int)" and h2: "- (2 ^ 31) \<le> (1 :: int)"
    and h3: "uint (3 :: 16 word) * uint (2 :: 16 word) < 2 ^ 31"
    and h4: "- 2 + uint (3 :: 16 word) * uint (2 :: 16 word) < 2 ^ 31"
    and h6: "1 + uint (3 :: 16 word) * uint (2 :: 16 word) < 2 ^ 31"
    and h7: "uint (2 :: 16 word) * int (pitch example_clip) < 2 ^ 31"
    by (simp_all add: example_clip_def)
  from BlitPixel_within_clip [OF h1 h2 h3 h4 h3 h6 h7, of 0 "MakeRGBA 1 2 3 OPAQUE" clear_screen]
  obtain mem' where run: "BlitPixel example_clip 0 (- 2) 1 3 3 2 2 (MakeRGBA 1 2 3 OPAQUE) clear_screen = Some mem'"
    and frame: "\<forall>a. mem' a \<noteq> clear_screen a \<longrightarrow>
        (\<exists>i j. i < unat (3 :: 16 word) \<and> j < unat (3 :: 16 word)
           \<and> 0 \<le> - 2 + int i * uint (2 :: 16 word)
           \<and> - 2 + int i * uint (2 :: 16 word) < int (width_cr example_clip)
           \<and> 0 \<le> 1 + int j * uint (2 :: 16 word)
           \<and> 1 + int j * uint (2 :: 16 word) < int (height_cr example_clip)
           \<and> a = 0 + int j * (uint (2 :: 16 word) * int (pitch example_clip)) + int i * uint (2 :: 16 word))"
    by blast
  have "mem' = clear_screen(2 := MakeRGBA 1 2 3 OPAQUE, 4 := MakeRGBA 1 2 3 OPAQUE,
                                        22 := MakeRGBA 1 2 3 OPAQUE, 24 := MakeRGBA 1 2 3 OPAQUE)"
    using run BlitPixel_example by simp
  then have changed: "mem' 24 \<noteq> clear_screen 24"
    by (simp add: clear_screen_def OPAQUE_def)
  from frame [THEN spec [of _ 24], THEN mp, OF changed] have "\<exists>i j. i < unat (3 :: 16 word) \<and> j < unat (3 :: 16 word)
           \<and> 0 \<le> - 2 + int i * uint (2 :: 16 word)
           \<and> - 2 + int i * uint (2 :: 16 word) < int (width_cr example_clip)
           \<and> 0 \<le> 1 + int j * uint (2 :: 16 word)
           \<and> 1 + int j * uint (2 :: 16 word) < int (height_cr example_clip)
           \<and> (24 :: int) = 0 + int j * (uint (2 :: 16 word) * int (pitch example_clip)) + int i * uint (2 :: 16 word)"
    .
  with run changed have "\<exists>mem'. BlitPixel example_clip 0 (- 2) 1 3 3 2 2 (MakeRGBA 1 2 3 OPAQUE) clear_screen = Some mem'
      \<and> mem' 24 \<noteq> clear_screen 24
      \<and> (\<exists>i j. i < unat (3 :: 16 word) \<and> j < unat (3 :: 16 word)
           \<and> 0 \<le> - 2 + int i * uint (2 :: 16 word)
           \<and> - 2 + int i * uint (2 :: 16 word) < int (width_cr example_clip)
           \<and> 0 \<le> 1 + int j * uint (2 :: 16 word)
           \<and> 1 + int j * uint (2 :: 16 word) < int (height_cr example_clip)
           \<and> (24 :: int) = 0 + int j * (uint (2 :: 16 word) * int (pitch example_clip)) + int i * uint (2 :: 16 word))"
    by (intro exI [of _ mem'] conjI)
  with h1 h2 h3 h4 h6 h7 show ?thesis
    by (intro conjI)
qed

text \<open>
  With 65535 tiles of 65535 pixels in both directions the products wrap around to
  \<open>-131071\<close>, both loops are left at once, and the screen keeps its colours.
\<close>

lemma BlitPixel_wrap_example:
  "BlitPixel example_clip 0 0 0 65535 65535 65535 65535 (MakeRGBA 1 2 3 OPAQUE) clear_screen
     = Some clear_screen"
  by (simp add: BlitPixel_def int32_def BlitPixel_rows.simps)

subsection \<open>Evaluation\<close>

lemmas reader_simps =
  GetUInt32_def GetUInt16_def GetInt16_def GetUInt8_def GetBlob_def block_reader_def nth_default_def

lemmas word_compare = word_le_nat_alt word_less_nat_alt

subsection \<open>The scenario of an indexed image\<close>

text \<open>
  C8, as the code has it: the indexed image of width 2 and height 1 whose jump table
  entry leads to offset 0 of the data (the entry 4 in the file, the size of the jump
  table being subtracted) and whose row data is \<open>[0x80, 0x02, idx0, idx1]\<close> (skip 0, two
  pixels, last run) passes \<open>LoadData\<close>; \<open>GetPixel(0,0)\<close> and \<open>GetPixel(1,0)\<close> are
  the palette colours of \<open>idx0\<close> and \<open>idx1\<close>, and \<open>GetPixel(2,0)\<close> is the colour of
  index 0.
\<close>

theorem indexed_scenario:
  "LoadData8 (block_reader ''8PXL'' 2 [4, 0, 0, 0, 0x80, 2, idx0, idx1])
       (new_ImageData8bpp\<lparr>width := 2, height := 1\<rparr>) 8
     = Some (True, (block_reader ''8PXL'' 2 [4, 0, 0, 0, 0x80, 2, idx0, idx1])\<lparr>file_pos := 8\<rparr>,
             new_ImageData8bpp\<lparr>width := 2, height := 1, table := [0], data := [0x80, 2, idx0, idx1]\<rparr>)
   \<and> GetPixel8 palette
         (new_ImageData8bpp\<lparr>width := 2, height := 1, table := [0], data := [0x80, 2, idx0, idx1]\<rparr>)
         0 0 None shift = Some (palette idx0)
   \<and> GetPixel8 palette
         (new_ImageData8bpp\<lparr>width := 2, height := 1, table := [0], data := [0x80, 2, idx0, idx1]\<rparr>)
         1 0 None shift = Some (palette idx1)
   \<and> GetPixel8 palette
         (new_ImageData8bpp\<lparr>width := 2, height := 1, table := [0], data := [0x80, 2, idx0, idx1]\<rparr>)
         2 0 None shift = Some (palette 0)"
proof (intro conjI)
  show "LoadData8 (block_reader ''8PXL'' 2 [4, 0, 0, 0, 0x80, 2, idx0, idx1])
       (new_ImageData8bpp\<lparr>width := 2, height := 1\<rparr>) 8
     = Some (True, (block_reader ''8PXL'' 2 [4, 0, 0, 0, 0x80, 2, idx0, idx1])\<lparr>file_pos := 8\<rparr>,
             new_ImageData8bpp\<lparr>width := 2, height := 1, table := [0], data := [0x80, 2, idx0, idx1]\<rparr>)"
    by (simp add: LoadData8_def reader_simps new_ImageData8bpp_def INVALID_JUMP_def verify_row.simps
        Let_def upt_rec word_compare)
qed (simp_all add: GetPixel8_def new_ImageData8bpp_def INVALID_JUMP_def GetPixel8_loop.simps Let_def
       word_compare)

text \<open>
  C8 as stated fails. With the jump table entry 0 in the file the row counts as empty:
  the image passes \<open>LoadData\<close>, and \<open>GetPixel(0,0)\<close> is the colour of index 0, not
  that of \<open>idx0\<close>. With a jump table entry that leads to offset 0 the row data
  \<open>[0x81, 0x02, idx0, idx1]\<close> is rejected: the low seven bits of \<open>0x81\<close> skip one
  pixel, and the row is three pixels wide.
\<close>

theorem indexed_scenario_counterexample:
  "LoadData8 (block_reader ''8PXL'' 2 [0, 0, 0, 0, 0x81, 2, 1, 2])
       (new_ImageData8bpp\<lparr>width := 2, height := 1\<rparr>) 8
     = Some (True, (block_reader ''8PXL'' 2 [0, 0, 0, 0, 0x81, 2, 1, 2])\<lparr>file_pos := 8\<rparr>,
             new_ImageData8bpp\<lparr>width := 2, height := 1, table := [INVALID_JUMP], data := [0x81, 2, 1, 2]\<rparr>)
   \<and> GetPixel8 grey_palette
         (new_ImageData8bpp\<lparr>width := 2, height := 1, table := [INVALID_JUMP], data := [0x81, 2, 1, 2]\<rparr>)
         0 0 None () = Some (grey_palette 0)
   \<and> grey_palette 0 \<noteq> grey_palette 1
   \<and> LoadData8 (block_reader ''8PXL'' 2 [4, 0, 0, 0, 0x81, 2, 1, 2])
       (new_ImageData8bpp\<lparr>width := 2, height := 1\<rparr>) 8
     = Some (False, (block_reader ''8PXL'' 2 [4, 0, 0, 0, 0x81, 2, 1, 2])\<lparr>file_pos := 8\<rparr>,
             new_ImageData8bpp\<lparr>width := 2, height := 1, table := [0], data := [0x81, 2, 1, 2]\<rparr>)"
  by (simp add: LoadData8_def reader_simps new_ImageData8bpp_def INVALID_JUMP_def verify_row.simps
      Let_def upt_rec word_compare GetPixel8_def grey_palette_def)

subsection \<open>The scenario of a true colour image\<close>

text \<open>
  C9, as the code has it: the true colour image of width 1 and height 1 whose payload is
  one line (mode byte 1, three colour bytes, mode byte 0) behind a length word of 7,
  which counts its own two bytes, or behind the length word 0 of a last line, passes
  \<open>LoadData\<close>.
\<close>

theorem true_colour_scenario:
  "LoadData32 (block_reader ''32PX'' 1 [7, 0, 1, r, g, b, 0])
       (new_ImageData32bpp\<lparr>width := 1, height := 1\<rparr>) 7
     = Some (True, (block_reader ''32PX'' 1 [7, 0, 1, r, g, b, 0])\<lparr>file_pos := 7\<rparr>,
             new_ImageData32bpp\<lparr>width := 1, height := 1, data32 := [7, 0, 1, r, g, b, 0]\<rparr>)
   \<and> LoadData32 (block_reader ''32PX'' 1 [0, 0, 1, r, g, b, 0])
       (new_ImageData32bpp\<lparr>width := 1, height := 1\<rparr>) 7
     = Some (True, (block_reader ''32PX'' 1 [0, 0, 1, r, g, b, 0])\<lparr>file_pos := 7\<rparr>,
             new_ImageData32bpp\<lparr>width := 1, height := 1, data32 := [0, 0, 1, r, g, b, 0]\<rparr>)"
  by (simp add: LoadData32_def reader_simps new_ImageData32bpp_def Let_def upt_rec word_compare)

text \<open>
  C9 as stated fails: the payload with the length word 5 and a second length word 0
  behind the line is rejected.
\<close>

theorem true_colour_scenario_counterexample:
  "LoadData32 (block_reader ''32PX'' 1 [5, 0, 1, 10, 20, 30, 0, 0, 0])
       (new_ImageData32bpp\<lparr>width := 1, height := 1\<rparr>) 9
     = Some (False, (block_reader ''32PX'' 1 [5, 0, 1, 10, 20, 30, 0, 0, 0])\<lparr>file_pos := 9\<rparr>,
             new_ImageData32bpp\<lparr>width := 1, height := 1, data32 := [5, 0, 1, 10, 20, 30, 0, 0, 0]\<rparr>)"
  by (simp add: LoadData32_def reader_simps new_ImageData32bpp_def Let_def upt_rec word_compare)

text \<open>
  On the accepted image the loop of \<open>GetPixel\<close> is not entered for column 0, and the
  result is the colour of index 0.
\<close>

lemma GetPixel32_column_0:
  "GetPixel32 palette (new_ImageData32bpp\<lparr>width := 1, height := 1, data32 := [7, 0, 1, r, g, b, 0]\<rparr>)
     0 0 recolour sf = Some (palette 0)"
  by (simp add: GetPixel32_def new_ImageData32bpp_def word_compare)

subsection \<open>LoadImage\<close>

text \<open>
  C3, as the code has it: a block whose version is not the one expected for its name
  (2 for the name \<open>8PXL\<close>, 1 for every other name) is rejected, and neither the reader
  nor the store changes.
\<close>

theorem LoadImage_version_mismatch:
  assumes "version rcd_file \<noteq> (if name rcd_file = ''8PXL'' then 2 else 1)"
  shows "LoadImage rcd_file sprites = Some (None, rcd_file, sprites)"
  using assms by (simp add: LoadImage_def Let_def)

theorem LoadImage_version_mismatch_witness:
  "version (block_reader ''8PXL'' 1 [2, 0, 1, 0, 0, 0, 0, 0, 4, 0, 0, 0, 0x80, 2, 7, 9])
     \<noteq> (if name (block_reader ''8PXL'' 1 [2, 0, 1, 0, 0, 0, 0, 0, 4, 0, 0, 0, 0x80, 2, 7, 9]) = ''8PXL''
         then 2 else 1)
   \<and> LoadImage (block_reader ''8PXL'' 1 [2, 0, 1, 0, 0, 0, 0, 0, 4, 0, 0, 0, 0x80, 2, 7, 9]) []
       = Some (None, block_reader ''8PXL'' 1 [2, 0, 1, 0, 0, 0, 0, 0, 4, 0, 0, 0, 0x80, 2, 7, 9], [])"
proof -
  have v: "version (block_reader ''8PXL'' 1 [2, 0, 1, 0, 0, 0, 0, 0, 4, 0, 0, 0, 0x80, 2, 7, 9])
     \<noteq> (if name (block_reader ''8PXL'' 1 [2, 0, 1, 0, 0, 0, 0, 0, 4, 0, 0, 0, 0x80, 2, 7, 9]) = ''8PXL''
         then 2 else 1)"
    by (simp add: block_reader_def)
  from v LoadImage_version_mismatch [OF v, of "[]"] show ?thesis
    by (rule conjI)
qed

text \<open>
  C3 as stated fails: the name is compared with \<open>8PXL\<close> only, so a block of version 1
  with any other name is loaded as a true colour image. Of the two names below at most
  one is the name of true colour blocks.
\<close>

theorem LoadImage_unknown_tag_counterexample:
  "LoadImage (block_reader ''ABCD'' 1 [1, 0, 1, 0, 0, 0, 0, 0, 0, 0, 0]) []
     = Some (Some 0, (block_reader ''ABCD'' 1 [1, 0, 1, 0, 0, 0, 0, 0, 0, 0, 0])\<lparr>file_pos := 11\<rparr>,
             [Sprite32 \<lparr>flags = 0, width = 1, height = 1, xoffset = 0, yoffset = 0, data32 = [0, 0, 0]\<rparr>])
   \<and> LoadImage (block_reader ''WXYZ'' 1 [1, 0, 1, 0, 0, 0, 0, 0, 0, 0, 0]) []
     = Some (Some 0, (block_reader ''WXYZ'' 1 [1, 0, 1, 0, 0, 0, 0, 0, 0, 0, 0])\<lparr>file_pos := 11\<rparr>,
             [Sprite32 \<lparr>flags = 0, width = 1, height = 1, xoffset = 0, yoffset = 0, data32 = [0, 0, 0]\<rparr>])"
  by (simp add: LoadImage_def LoadSizes_def LoadData32_def reader_simps Let_def upt_rec word_compare)

subsection \<open>GetPixel of an indexed image\<close>

lemma unat_ucast_8_32: "unat (ucast (b :: 8 word) :: 32 word) = unat b"
  by (simp add: unsigned_ucast_eq take_bit_nat_eq_self unat_byte_less[THEN less_trans])

lemma unat_ucast_8_16: "unat (ucast (b :: 8 word) :: 16 word) = unat b"
  by (simp add: unsigned_ucast_eq take_bit_nat_eq_self unat_byte_less[THEN less_trans])

lemma unat_ucast_16_32: "unat (ucast (b :: 16 word) :: 32 word) = unat b"
proof -
  have "unat b < 2 ^ 16" using unsigned_less [of b] by simp
  then have "unat b < 2 ^ 32" by simp
  then show ?thesis by (simp add: unsigned_ucast_eq take_bit_nat_eq_self)
qed

lemma unat_and_127: "unat ((b :: 8 word) AND 127) \<le> 127"
proof -
  have "unat (b AND 127) \<le> unat (127 :: 8 word)"
    by (rule word_and_le1 [THEN word_le_nat_alt [THEN iffD1]])
  then show ?thesis by simp
qed

lemma unat_and_63: "unat ((b :: 8 word) AND 63) \<le> 63"
proof -
  have "unat (b AND 63) \<le> unat (63 :: 8 word)"
    by (rule word_and_le1 [THEN word_le_nat_alt [THEN iffD1]])
  then show ?thesis by simp
qed

lemma unat_plus_32:
  fixes a :: "32 word"
  assumes "unat a + n < 2 ^ 32"
  shows "unat (a + of_nat n) = unat a + n"
  using assms by (simp add: unat_word_ariths unat_of_nat)

lemma unat_plus_16:
  fixes a :: "16 word"
  assumes "unat a + n < 2 ^ 16"
  shows "unat (a + of_nat n) = unat a + n"
  using assms by (simp add: unat_word_ariths unat_of_nat)


text \<open>
  What the verification of a row has checked when it accepts: with a buffer below
  \<open>2 ^ 31\<close> bytes no offset and no position wraps around.
\<close>

lemma verify_row_True_step:
  assumes ok: "verify_row dat w offset xpos = Some True"
    and len: "length dat < 2 ^ 31"
    and xp: "unat xpos \<le> unat w"
  shows "unat offset + 2 < length dat"
    and "unat (offset + 1) = unat offset + 1"
    and "unat (offset + (2 + ucast (dat ! (unat offset + 1)))) = unat offset + 2 + unat (dat ! (unat offset + 1))"
    and "unat (xpos + (ucast (dat ! unat offset AND 127) + ucast (dat ! (unat offset + 1))))
           = unat xpos + unat (dat ! unat offset AND 127) + unat (dat ! (unat offset + 1))"
    and "unat xpos + unat (dat ! unat offset AND 127) + unat (dat ! (unat offset + 1)) \<le> unat w"
    and "unat offset + 2 + unat (dat ! (unat offset + 1)) \<le> length dat"
    and "dat ! unat offset AND 128 = 0 \<Longrightarrow>
           unat xpos + unat (dat ! unat offset AND 127) + unat (dat ! (unat offset + 1)) < unat w
         \<and> unat offset + 2 + unat (dat ! (unat offset + 1)) < length dat
         \<and> verify_row dat w (offset + (2 + ucast (dat ! (unat offset + 1))))
               (xpos + (ucast (dat ! unat offset AND 127) + ucast (dat ! (unat offset + 1)))) = Some True"
proof -
  let ?rel = "dat ! unat offset"
  let ?count = "dat ! (unat offset + 1)"
  have g: "unat (offset + 2) < length dat" "unat offset < length dat"
    using ok by (subst (asm) verify_row.simps, simp split: if_splits)+
  have o1: "unat (offset + 1) = unat offset + 1" and o2: "unat (offset + 2) = unat offset + 2"
    using g(2) len by (simp_all add: unat_word_ariths)
  show "unat offset + 2 < length dat"
    using g(1) o2 by simp
  show "unat (offset + 1) = unat offset + 1"
    by (rule o1)
  have c: "unat ?count < 256" and r: "unat (?rel AND 127) \<le> 127"
    by (rule unat_byte_less, rule unat_and_127)
  have w: "unat w < 2 ^ 16"
    using unsigned_less [of w] by simp
  show o': "unat (offset + (2 + ucast ?count)) = unat offset + 2 + unat ?count"
    using g(2) len c by (simp add: unat_word_ariths unat_ucast_8_32)
  show x': "unat (xpos + (ucast (?rel AND 127) + ucast ?count))
           = unat xpos + unat (?rel AND 127) + unat ?count"
    using xp w c r by (simp add: unat_word_ariths unat_ucast_8_32)
  have rest: "if ?rel AND 128 = 0
        then \<not> (xpos + (ucast (?rel AND 127) + ucast ?count) \<ge> ucast w
                \<or> unat (offset + (2 + ucast ?count)) \<ge> length dat)
             \<and> verify_row dat w (offset + (2 + ucast ?count))
                   (xpos + (ucast (?rel AND 127) + ucast ?count)) = Some True
        else \<not> (xpos + (ucast (?rel AND 127) + ucast ?count) > ucast w
                \<or> unat (offset + (2 + ucast ?count)) > length dat)"
    using ok by (subst (asm) verify_row.simps) (simp add: o1 Let_def split: if_splits)
  then have rest': "if ?rel AND 128 = 0
        then \<not> (unat xpos + unat (?rel AND 127) + unat ?count \<ge> unat w
                \<or> unat offset + 2 + unat ?count \<ge> length dat)
             \<and> verify_row dat w (offset + (2 + ucast ?count))
                   (xpos + (ucast (?rel AND 127) + ucast ?count)) = Some True
        else \<not> (unat xpos + unat (?rel AND 127) + unat ?count > unat w
                \<or> unat offset + 2 + unat ?count > length dat)"
    by (simp only: word_le_nat_alt word_less_nat_alt x' o' unat_ucast_16_32)
  then show "unat xpos + unat (?rel AND 127) + unat ?count \<le> unat w"
    by (auto split: if_splits)
  from rest' show "unat offset + 2 + unat ?count \<le> length dat"
    by (auto split: if_splits)
  assume "?rel AND 128 = 0"
  with rest' show "unat xpos + unat (?rel AND 127) + unat ?count < unat w
         \<and> unat offset + 2 + unat ?count < length dat
         \<and> verify_row dat w (offset + (2 + ucast ?count))
               (xpos + (ucast (?rel AND 127) + ucast ?count)) = Some True"
    by simp
qed

text \<open>
  On a row that the verification accepts, the loop of \<open>GetPixel\<close> returns a colour:
  it walks the same runs, and every index it reads lies before the end of the run.
\<close>

lemma GetPixel8_loop_returns:
  assumes ok: "verify_row dat w offset xpos = Some True"
    and len: "length dat < 2 ^ 31"
    and xp: "unat xpos \<le> unat w"
    and same: "unat (xp :: 16 word) = unat xpos"
  shows "\<exists>c. GetPixel8_loop palette dat recolour shift xoff offset xp = Some c"
  using ok xp same
proof (induction "length dat - unat offset" arbitrary: offset xpos xp rule: less_induct)
  case less
  let ?rel = "dat ! unat offset"
  let ?count = "dat ! (unat offset + 1)"
  note st = verify_row_True_step [OF less.prems(1) len less.prems(2)]
  note unfold = GetPixel8_loop.simps [of palette dat recolour shift xoff offset xp]
  have guard: "unat offset < length dat" "unat (offset + 1) < length dat"
    using st(1,2) by simp_all
  have w: "unat w < 2 ^ 16"
    using unsigned_less [of w] by simp
  define xpos1 where "xpos1 = xp + ucast (?rel AND 127)"
  define xpos2 where "xpos2 = xpos1 + ucast ?count"
  have x1: "unat xpos1 = unat xpos + unat (?rel AND 127)"
    using st(5) w less.prems(3) by (simp add: xpos1_def unat_word_ariths unat_ucast_8_16)
  have x2: "unat xpos2 = unat xpos + unat (?rel AND 127) + unat ?count"
    using st(5) w x1 by (simp add: xpos2_def unat_word_ariths unat_ucast_8_16)
  show ?case
  proof (cases "xp \<le> xoff")
    case False
    then show ?thesis
      by (simp add: unfold)
  next
    case inside: True
    show ?thesis
    proof (cases "xpos1 > xoff")
      case True
      then show ?thesis
        using inside guard by (simp add: unfold Let_def st(2) flip: xpos1_def)
    next
      case False
      then have le: "unat xpos1 \<le> unat xoff"
        by (simp add: word_less_nat_alt)
      have u: "uint xoff = int (unat xoff)" "uint xpos1 = int (unat xpos1)" "uint ?count = int (unat ?count)"
        by simp_all
      show ?thesis
      proof (cases "uint xoff - uint xpos1 < uint ?count")
        case True
        then have d: "unat xoff - unat xpos1 < unat ?count"
          unfolding u using le by linarith
        have xo: "unat xoff < 2 ^ 16"
          using unsigned_less [of xoff] by simp
        have a: "unat (offset + 2 + ucast xoff :: 32 word) = unat offset + 2 + unat xoff"
          using guard(1) len xo by (simp add: unat_word_ariths unat_ucast_16_32)
        have "(ucast xpos1 :: 32 word) \<le> offset + 2 + ucast xoff"
          using le by (simp add: word_le_nat_alt a unat_ucast_16_32)
        then have "unat (offset + 2 + ucast xoff - ucast xpos1 :: 32 word)
                     = unat offset + 2 + unat xoff - unat xpos1"
          by (simp add: unat_sub a unat_ucast_16_32)
        with d le st(6) have at: "unat (offset + 2 + ucast xoff - ucast xpos1 :: 32 word) < length dat"
          by linarith
        show ?thesis
          using inside guard False True at by (simp add: unfold Let_def st(2) flip: xpos1_def)
      next
        case far: False
        show ?thesis
        proof (cases "?rel AND 128 = 0")
          case False
          then show ?thesis
            using inside guard \<open>\<not> xpos1 > xoff\<close> far by (simp add: unfold Let_def st(2) flip: xpos1_def)
        next
          case True
          note next_run = st(7) [OF True]
          have "length dat - unat (offset + (2 + ucast ?count)) < length dat - unat offset"
            using st(3) guard(1) by simp
          moreover have "verify_row dat w (offset + (2 + ucast ?count))
                           (xpos + (ucast (?rel AND 127) + ucast ?count)) = Some True"
            using next_run by (rule conjunct2 [THEN conjunct2])
          moreover have "unat (xpos + (ucast (?rel AND 127) + ucast ?count)) \<le> unat w"
            using next_run unfolding st(4) by (intro less_imp_le) (rule conjunct1)
          moreover have "unat xpos2 = unat (xpos + (ucast (?rel AND 127) + ucast ?count))"
            unfolding st(4) x2 by (rule refl)
          ultimately have "\<exists>c. GetPixel8_loop palette dat recolour shift xoff
                            (offset + (2 + ucast ?count)) xpos2 = Some c"
            by (rule less.hyps)
          then obtain c where "GetPixel8_loop palette dat recolour shift xoff
                            (offset + (2 + ucast ?count)) xpos2 = Some c"
            by (rule exE)
          then show ?thesis
            using inside guard \<open>\<not> xpos1 > xoff\<close> far True
            by (simp add: unfold Let_def st(2) xpos2_def flip: xpos1_def)
        qed
      qed
    qed
  qed
qed


subsection \<open>Loaded indexed images\<close>

declare load_jump_table.simps [simp del] verify_rows.simps [simp del] read_line.simps [simp del]
  verify_lines.simps [simp del] GetPixel32_loop.simps [simp del]

lemma verify_rows_row:
  assumes "verify_rows this i = Some True" and "i < unat (height this)"
  shows "i < length (table this)"
    and "table this ! i = INVALID_JUMP \<or> verify_row (data this) (width this) (table this ! i) 0 = Some True"
    and "verify_rows this (i + 1) = Some True"
  using assms
  by (subst (asm) verify_rows.simps, simp add: Let_def split: if_splits option.splits)+

lemma verify_rows_from:
  assumes "verify_rows this i = Some True" and "i \<le> j" and "j \<le> unat (height this)"
  shows "verify_rows this j = Some True"
  using assms(2,1,3)
proof (induction j rule: dec_induct)
  case base
  then show ?case by simp
next
  case (step n)
  then have "verify_rows this n = Some True" and "n < unat (height this)"
    by simp_all
  then have "verify_rows this (n + 1) = Some True"
    by (rule verify_rows_row(3))
  then show ?case by simp
qed

lemma LoadData8_True:
  assumes "LoadData8 rcd_file this0 len0 = Some (True, rcd', this)"
  shows "verify_rows this 0 = Some True" and "length (data this) \<le> len0"
  using assms
  by (auto simp: LoadData8_def Let_def GetBlob_def split: if_splits prod.splits option.splits)

lemma LoadSizes_True:
  assumes "LoadSizes rcd_file this0 len = (True, rcd', this)"
  shows "len - 8 \<le> 100 * 1024"
  using assms
  by (auto simp: LoadSizes_def Let_def split: if_splits prod.splits)

lemma LoadImage_Sprite8:
  assumes "LoadImage rcd_file sprites = Some (Some i, rcd', sprites')" and "sprites' ! i = Sprite8 this"
  shows "\<exists>rcd1 this1. LoadData8 rcd1 this1 (size_rcd rcd_file - 8) = Some (True, rcd', this)"
    and "size_rcd rcd_file - 8 \<le> 100 * 1024"
proof -
  have "(\<exists>rcd1 this1. LoadData8 rcd1 this1 (size_rcd rcd_file - 8) = Some (True, rcd', this))
          \<and> size_rcd rcd_file - 8 \<le> 100 * 1024"
  proof (cases "name rcd_file = ''8PXL''")
    case True
    obtain ok rcd1 this1 where sizes:
      "LoadSizes rcd_file \<lparr>flags = push_bit IFG_IS_8BPP 1, width = 0, height = 0, xoffset = 0,
          yoffset = 0, table = [], data = []\<rparr> (size_rcd rcd_file) = (ok, rcd1, this1)"
      by (metis prod_cases3)
    from assms(1) True sizes have ok: "ok"
      by (simp add: LoadImage_def Let_def split: if_splits)
    from assms(1) True sizes ok obtain this2 where
      "LoadData8 rcd1 this1 (size_rcd rcd_file - 8) = Some (True, rcd', this2)"
      and "sprites' = sprites @ [Sprite8 this2]" and "i = length sprites"
      by (auto simp: LoadImage_def Let_def split: if_splits option.splits)
    moreover from this assms(2) have "this2 = this"
      by simp
    moreover have "size_rcd rcd_file - 8 \<le> 100 * 1024"
      using sizes ok by (auto dest: LoadSizes_True)
    ultimately show ?thesis
      by blast
  next
    case False
    with assms show ?thesis
      by (auto simp: LoadImage_def Let_def split: if_splits prod.splits option.splits)
  qed
  then show "\<exists>rcd1 this1. LoadData8 rcd1 this1 (size_rcd rcd_file - 8) = Some (True, rcd', this)"
    and "size_rcd rcd_file - 8 \<le> 100 * 1024"
    by simp_all
qed


text \<open>
  C4: for every indexed image that \<open>LoadImage\<close> has loaded, \<open>GetPixel\<close> returns a
  colour at every position inside the image, without reading outside the buffers, and
  returns the colour of index 0 at every position with \<open>x \<ge> width\<close> or
  \<open>y \<ge> height\<close>.
\<close>

theorem GetPixel8_loaded:
  assumes "LoadImage rcd_file sprites = Some (Some i, rcd', sprites')" and "sprites' ! i = Sprite8 this"
  shows "(xoff < width this \<and> yoff < height this
            \<longrightarrow> (\<exists>c. GetPixel8 palette this xoff yoff recolour shift = Some c))
       \<and> (xoff \<ge> width this \<or> yoff \<ge> height this
            \<longrightarrow> GetPixel8 palette this xoff yoff recolour shift = Some (palette 0))"
proof (intro conjI impI)
  assume "xoff \<ge> width this \<or> yoff \<ge> height this"
  then show "GetPixel8 palette this xoff yoff recolour shift = Some (palette 0)"
    by (auto simp: GetPixel8_def)
next
  assume inside: "xoff < width this \<and> yoff < height this"
  from LoadImage_Sprite8 [OF assms] obtain rcd1 this1
    where loaded: "LoadData8 rcd1 this1 (size_rcd rcd_file - 8) = Some (True, rcd', this)"
      and "size_rcd rcd_file - 8 \<le> 100 * 1024"
    by blast
  with LoadData8_True(2) [OF loaded] have len: "length (data this) < 2 ^ 31"
    by simp
  have y: "unat yoff < unat (height this)"
    using inside by (simp add: word_less_nat_alt)
  have "verify_rows this (unat yoff) = Some True"
    using LoadData8_True(1) [OF loaded] _ less_imp_le [OF y] by (rule verify_rows_from) simp
  note row = verify_rows_row(1,2) [OF this y]
  show "\<exists>c. GetPixel8 palette this xoff yoff recolour shift = Some c"
  proof (cases "table this ! unat yoff = INVALID_JUMP")
    case True
    then show ?thesis
      using row(1) by (simp add: GetPixel8_def Let_def)
  next
    case False
    with row(2) have "verify_row (data this) (width this) (table this ! unat yoff) 0 = Some True"
      by simp
    from GetPixel8_loop_returns [OF this len, of 0 palette recolour shift xoff]
    obtain c where "GetPixel8_loop palette (data this) recolour shift xoff (table this ! unat yoff) 0 = Some c"
      by auto
    then show ?thesis
      using inside row(1) False by (simp add: GetPixel8_def Let_def word_le_nat_alt word_less_nat_alt)
  qed
qed

lemma LoadImage_example_block8:
  "LoadImage (block_reader ''8PXL'' 2 example_block8) []
     = Some (Some 0, (block_reader ''8PXL'' 2 example_block8)\<lparr>file_pos := 16\<rparr>, [Sprite8 example_image8])"
  by (simp add: LoadImage_def LoadSizes_def LoadData8_def reader_simps Let_def upt_rec word_compare
      IFG_IS_8BPP_def INVALID_JUMP_def verify_row.simps example_block8_def example_image8_def
      load_jump_table.simps verify_rows.simps)

theorem GetPixel8_loaded_witness:
  "LoadImage (block_reader ''8PXL'' 2 example_block8) []
     = Some (Some 0, (block_reader ''8PXL'' 2 example_block8)\<lparr>file_pos := 16\<rparr>, [Sprite8 example_image8])
   \<and> [Sprite8 example_image8] ! 0 = Sprite8 example_image8
   \<and> 1 < width example_image8 \<and> 0 < height example_image8
   \<and> (\<exists>c. GetPixel8 grey_palette example_image8 1 0 None () = Some c)
   \<and> (2 \<ge> width example_image8 \<or> 0 \<ge> height example_image8)
   \<and> GetPixel8 grey_palette example_image8 2 0 None () = Some (grey_palette 0)"
proof -
  note l = LoadImage_example_block8
  have s: "[Sprite8 example_image8] ! 0 = Sprite8 example_image8"
    by simp
  have a: "1 < width example_image8 \<and> 0 < height example_image8"
    by (simp add: example_image8_def)
  have b: "2 \<ge> width example_image8 \<or> 0 \<ge> height example_image8"
    by (simp add: example_image8_def)
  from GetPixel8_loaded [OF l s, of 1 0 grey_palette None "()"] a
  have "\<exists>c. GetPixel8 grey_palette example_image8 1 0 None () = Some c"
    by (rule conjunct1 [THEN mp])
  moreover from GetPixel8_loaded [OF l s, of 2 0 grey_palette None "()"] b
  have "GetPixel8 grey_palette example_image8 2 0 None () = Some (grey_palette 0)"
    by (rule conjunct2 [THEN mp])
  ultimately show ?thesis
    using l s a b by (intro conjI) simp_all
qed

subsection \<open>LoadData of an indexed image\<close>

declare run_counts.simps [simp del]

lemma header_at:
  assumes "take (2 + n) (drop off dat) = c # k # px" and "length px = n"
  shows "off + 2 + n \<le> length dat" and "dat ! off = c" and "dat ! (off + 1) = k"
proof -
  have "length (take (2 + n) (drop off dat)) = 2 + n"
    using assms by simp
  then show le: "off + 2 + n \<le> length dat"
    by simp
  have "(c # k # px) ! 0 = dat ! off" "(c # k # px) ! 1 = dat ! (off + 1)"
    unfolding assms(1) [symmetric] using le by simp_all
  then show "dat ! off = c" and "dat ! (off + 1) = k"
    by simp_all
qed

lemma unat_of_nat_32: "n < 2 ^ 32 \<Longrightarrow> unat (of_nat n :: 32 word) = n"
  by (simp add: unat_of_nat)

lemma unat_of_nat_8: "n < 256 \<Longrightarrow> unat (of_nat n :: 8 word) = n"
  by (simp add: unat_of_nat)

lemma ucast_of_nat_8_32: "n < 256 \<Longrightarrow> (ucast (of_nat n :: 8 word) :: 32 word) = of_nat n"
  by (simp add: word_unat_eq_iff unat_ucast_8_32 unat_of_nat)

lemma verify_row_run:
  assumes hd: "take (2 + length px) (drop off dat) = c # of_nat (length px) # px"
    and n: "length px < 256" and len: "length dat < 2 ^ 31" and x: "x \<le> unat w"
  shows "verify_row dat w (of_nat off) (of_nat x) =
           (if length dat \<le> off + 2 then Some False
            else if c AND 128 = 0 then
              (if unat w \<le> x + run_width (c, px) \<or> length dat \<le> off + 2 + length px then Some False
               else verify_row dat w (of_nat (off + 2 + length px)) (of_nat (x + run_width (c, px))))
            else
              (if unat w < x + run_width (c, px) \<or> length dat < off + 2 + length px then Some False
               else Some True))"
proof -
  note h = header_at [OF hd refl]
  let ?O = "of_nat off :: 32 word"
  let ?X = "of_nat x :: 32 word"
  let ?k = "of_nat (length px) :: 8 word"
  have w: "unat w < 2 ^ 16"
    using unsigned_less [of w] by simp
  have r: "unat (c AND 127) \<le> 127"
    by (rule unat_and_127)
  have O: "unat ?O = off" "unat (?O + 1) = off + 1" "unat (?O + 2) = off + 2"
    using h(1) len by (simp_all add: unat_word_ariths unat_of_nat)
  have O': "?O + (2 + ucast ?k) = of_nat (off + 2 + length px)"
    using n by (simp add: ucast_of_nat_8_32)
  have X': "?X + (ucast (c AND 127) + ucast ?k) = of_nat (x + run_width (c, px))"
    using n by (simp add: ucast_of_nat_8_32 run_width_def)
  have uO': "unat (of_nat (off + 2 + length px) :: 32 word) = off + 2 + length px"
    by (rule unat_of_nat_32) (use h(1) len in simp)
  have uX': "unat (of_nat (x + run_width (c, px)) :: 32 word) = x + run_width (c, px)"
    by (rule unat_of_nat_32) (use x w r n in \<open>simp add: run_width_def\<close>)
  show ?thesis
    apply (subst verify_row.simps)
    apply (simp only: O h(2,3) Let_def O' X' uO' uX' word_le_nat_alt word_less_nat_alt unat_ucast_16_32)
    apply (simp del: of_nat_add)
    done
qed


lemma runs_at_header:
  assumes "runs_at dat off (r # rs)"
  shows "take (2 + length (snd r)) (drop off dat) = fst r # of_nat (length (snd r)) # snd r"
    and "length (snd r) < 256"
    and "off + 2 + length (snd r) \<le> length dat"
proof -
  show t: "take (2 + length (snd r)) (drop off dat) = fst r # of_nat (length (snd r)) # snd r"
    and "length (snd r) < 256"
    using assms by (cases rs; simp)+
  show "off + 2 + length (snd r) \<le> length dat"
    using header_at(1) [OF t refl] .
qed

text \<open>The verification of a row of runs returns what \<open>row_accepted\<close> says.\<close>

lemma verify_row_runs:
  assumes "runs_at dat off runs" and "length dat < 2 ^ 31" and "x \<le> unat w"
  shows "verify_row dat w (of_nat off) (of_nat x) = Some (row_accepted (unat w) (length dat) off x runs)"
  using assms
proof (induction dat off runs arbitrary: x rule: runs_at.induct)
  case (1 dat off)
  then show ?case by simp
next
  case (2 dat off r)
  note h = runs_at_header [OF "2.prems"(1)]
  have last: "fst r AND 128 \<noteq> 0"
    using "2.prems"(1) by simp
  have "verify_row dat w (of_nat off) (of_nat x)
          = Some (\<not> length dat \<le> off + 2 \<and> \<not> unat w < x + run_width r)"
    using verify_row_run [OF h(1,2) "2.prems"(2,3)] last h(3) by simp
  then show ?case
    by (simp add: not_le not_less conj_commute)
next
  case (3 dat off r r' rs)
  note h = runs_at_header [OF "3.prems"(1)]
  have more: "fst r AND 128 = 0" and rest: "runs_at dat (off + 2 + length (snd r)) (r' # rs)"
    using "3.prems"(1) by simp_all
  note h' = runs_at_header(3) [OF rest]
  show ?case
  proof (cases "unat w \<le> x + run_width r")
    case True
    then have "verify_row dat w (of_nat off) (of_nat x) = Some False"
      using verify_row_run [OF h(1,2) "3.prems"(2,3)] more h' by simp
    with True show ?thesis
      by simp
  next
    case False
    then have "verify_row dat w (of_nat off) (of_nat x)
                 = verify_row dat w (of_nat (off + 2 + length (snd r))) (of_nat (x + run_width r))"
      using verify_row_run [OF h(1,2) "3.prems"(2,3)] more h' by simp
    also have "\<dots> = Some (row_accepted (unat w) (length dat) (off + 2 + length (snd r))
                            (x + run_width r) (r' # rs))"
      using False by (intro "3.IH" rest "3.prems"(2)) simp
    finally show ?thesis
      using False by simp
  qed
qed

lemma GetUInt32_at:
  "GetUInt32 (rcd\<lparr>file_pos := file_pos rcd + 4 * i\<rparr>)
     = (jump_entry rcd i, rcd\<lparr>file_pos := file_pos rcd + 4 * (i + 1)\<rparr>)"
  by (simp add: jump_entry_def GetUInt32_def GetUInt16_def GetUInt8_def Let_def)

lemma GetBlob_at:
  "GetBlob (rcd\<lparr>file_pos := file_pos rcd + jmp\<rparr>) n
     = (row_data rcd jmp n, rcd\<lparr>file_pos := file_pos rcd + jmp + n\<rparr>)"
  by (simp add: row_data_def GetBlob_def)

lemma length_row_data: "length (row_data rcd jmp n) = n"
  by (simp add: row_data_def GetBlob_def)

lemma load_jump_table_all:
  assumes "\<forall>k. i \<le> k \<and> k < unat (height this)
              \<longrightarrow> jump_entry rcd k = 0 \<or> unat (jump_entry rcd k - of_nat jmp) < len"
    and "i \<le> unat (height this)" and "length (table this) = unat (height this)"
  shows "load_jump_table (rcd\<lparr>file_pos := file_pos rcd + 4 * i\<rparr>) this jmp len i
           = (True, rcd\<lparr>file_pos := file_pos rcd + 4 * unat (height this)\<rparr>,
              this\<lparr>table := take i (table this) @ map (table_entry rcd jmp) [i..<unat (height this)]\<rparr>)"
  using assms
proof (induction "unat (height this) - i" arbitrary: i this)
  case 0
  then have "i = unat (height this)" by simp
  then show ?case
    using "0.prems"(3) by (subst load_jump_table.simps) simp
next
  case (Suc d)
  then have i: "i < unat (height this)" by simp
  define this' where "this' = this\<lparr>table := (table this)[i := table_entry rcd jmp i]\<rparr>"
  have entry: "jump_entry rcd i = 0 \<or> unat (jump_entry rcd i - of_nat jmp) < len"
    using Suc.prems(1) i by simp
  have step: "load_jump_table (rcd\<lparr>file_pos := file_pos rcd + 4 * i\<rparr>) this jmp len i
                = load_jump_table (rcd\<lparr>file_pos := file_pos rcd + 4 * (i + 1)\<rparr>) this' jmp len (i + 1)"
    using i entry
    by (subst load_jump_table.simps) (auto simp: GetUInt32_at Let_def this'_def table_entry_def)
  have h': "height this' = height this" and l': "length (table this') = unat (height this)"
    using Suc.prems(3) by (simp_all add: this'_def)
  have "d = unat (height this') - (i + 1)"
    using Suc.hyps(2) h' by simp
  moreover have "\<forall>k. i + 1 \<le> k \<and> k < unat (height this')
              \<longrightarrow> jump_entry rcd k = 0 \<or> unat (jump_entry rcd k - of_nat jmp) < len"
    using Suc.prems(1) h' by simp
  moreover have "i + 1 \<le> unat (height this')" "length (table this') = unat (height this')"
    using i h' l' by simp_all
  ultimately have "load_jump_table (rcd\<lparr>file_pos := file_pos rcd + 4 * (i + 1)\<rparr>) this' jmp len (i + 1)
           = (True, rcd\<lparr>file_pos := file_pos rcd + 4 * unat (height this')\<rparr>,
              this'\<lparr>table := take (i + 1) (table this') @ map (table_entry rcd jmp) [i + 1..<unat (height this')]\<rparr>)"
    by (rule Suc.hyps(1))
  moreover have "take (i + 1) (table this') = take i (table this) @ [table_entry rcd jmp i]"
    using i Suc.prems(3) by (simp add: this'_def take_Suc_conv_app_nth)
  moreover have "[i..<unat (height this)] = i # [i + 1..<unat (height this)]"
    using i by (simp add: upt_conv_Cons)
  ultimately show ?case
    using step h' by (simp add: this'_def)
qed

lemma all_from_split:
  assumes "i < (h :: nat)"
  shows "(\<forall>k. i \<le> k \<and> k < h \<longrightarrow> P k) \<longleftrightarrow> P i \<and> (\<forall>k. i + 1 \<le> k \<and> k < h \<longrightarrow> P k)"
proof -
  have "i \<le> k \<longleftrightarrow> k = i \<or> i + 1 \<le> k" for k
    by auto
  then show ?thesis
    using assms by auto
qed

lemma verify_rows_layout:
  assumes tbl: "\<forall>k < unat (height this).
                  table this ! k = (case rows k of None \<Rightarrow> INVALID_JUMP | Some (off, runs) \<Rightarrow> of_nat off)"
    and tl: "length (table this) = unat (height this)"
    and lay: "\<forall>k < unat (height this).
                 case rows k of None \<Rightarrow> True
                 | Some (off, runs) \<Rightarrow> off < length (data this) \<and> runs_at (data this) off runs"
    and len: "length (data this) < 2 ^ 31"
    and i: "i \<le> unat (height this)"
  shows "verify_rows this i
           = Some (\<forall>k. i \<le> k \<and> k < unat (height this)
                     \<longrightarrow> row_checked (unat (width this)) (length (data this)) (rows k))"
  using i
proof (induction "unat (height this) - i" arbitrary: i)
  case 0
  then show ?case
    by (subst verify_rows.simps) auto
next
  case (Suc d)
  then have i: "i < unat (height this)" by simp
  have "d = unat (height this) - (i + 1)" "i + 1 \<le> unat (height this)"
    using Suc.hyps(2) i by simp_all
  then have IH: "verify_rows this (i + 1)
           = Some (\<forall>k. i + 1 \<le> k \<and> k < unat (height this)
                     \<longrightarrow> row_checked (unat (width this)) (length (data this)) (rows k))"
    by (rule Suc.hyps(1))
  note split = all_from_split [OF i, of "\<lambda>k. row_checked (unat (width this)) (length (data this)) (rows k)"]
  show ?case
  proof (cases "rows i")
    case None
    then have "table this ! i = INVALID_JUMP"
      using tbl i by simp
    then have "verify_rows this i = verify_rows this (i + 1)"
      using i tl by (subst verify_rows.simps) (simp add: Let_def)
    with IH have "verify_rows this i
           = Some (\<forall>k. i + 1 \<le> k \<and> k < unat (height this)
                     \<longrightarrow> row_checked (unat (width this)) (length (data this)) (rows k))"
      by (simp only:)
    moreover have "row_checked (unat (width this)) (length (data this)) (rows i)"
      using None by (simp add: row_checked_def)
    ultimately show ?thesis
      by (simp only: split simp_thms)
  next
    case (Some row)
    obtain off runs where row: "row = (off, runs)"
      by (cases row)
    have t: "table this ! i = of_nat off"
      using tbl i Some row by simp
    have off: "off < length (data this)" and runs: "runs_at (data this) off runs"
      using lay i Some row by auto
    have uo: "unat (of_nat off :: 32 word) = off"
      using off len by (intro unat_of_nat_32) simp
    have valid: "(of_nat off :: 32 word) \<noteq> INVALID_JUMP"
    proof
      assume "(of_nat off :: 32 word) = INVALID_JUMP"
      then have "unat (of_nat off :: 32 word) = unat INVALID_JUMP"
        by simp
      then have "off = 2 ^ 32 - 1"
        by (simp add: uo INVALID_JUMP_def)
      with off len show False
        by simp
    qed
    have row_result: "verify_row (data this) (width this) (of_nat off) 0
            = Some (row_accepted (unat (width this)) (length (data this)) off 0 runs)"
      using verify_row_runs [OF runs len, of 0 "width this"] by simp
    have "verify_rows this i
            = (if \<not> row_accepted (unat (width this)) (length (data this)) off 0 runs then Some False
               else verify_rows this (i + 1))"
      using i tl t valid row_result by (subst verify_rows.simps) (simp add: Let_def)
    moreover have "row_checked (unat (width this)) (length (data this)) (rows i)
                     = row_accepted (unat (width this)) (length (data this)) off 0 runs"
      using Some row by (simp add: row_checked_def)
    ultimately have "verify_rows this i
            = (if \<not> row_checked (unat (width this)) (length (data this)) (rows i) then Some False
               else Some (\<forall>k. i + 1 \<le> k \<and> k < unat (height this)
                     \<longrightarrow> row_checked (unat (width this)) (length (data this)) (rows k)))"
      using IH by (simp only:)
    then show ?thesis
      unfolding split
      by (cases "row_checked (unat (width this)) (length (data this)) (rows i)") (simp_all only: simp_thms if_True if_False)
  qed
qed

lemma row_layout_entry:
  assumes lay: "row_layout rcd (4 * h) n k row" and k: "k < h" and h: "h < 2 ^ 16" and n: "n < 2 ^ 31"
  shows "table_entry rcd (4 * h) k = (case row of None \<Rightarrow> INVALID_JUMP | Some (off, runs) \<Rightarrow> of_nat off)"
    and "jump_entry rcd k = 0 \<or> unat (jump_entry rcd k - of_nat (4 * h)) < n"
    and "case row of None \<Rightarrow> True
         | Some (off, runs) \<Rightarrow> off < n \<and> runs_at (row_data rcd (4 * h) n) off runs"
proof -
  have "table_entry rcd (4 * h) k = (case row of None \<Rightarrow> INVALID_JUMP | Some (off, runs) \<Rightarrow> of_nat off)
      \<and> (jump_entry rcd k = 0 \<or> unat (jump_entry rcd k - of_nat (4 * h)) < n)
      \<and> (case row of None \<Rightarrow> True
         | Some (off, runs) \<Rightarrow> off < n \<and> runs_at (row_data rcd (4 * h) n) off runs)"
  proof (cases row)
    case None
    then show ?thesis
      using lay by (simp add: row_layout_def table_entry_def)
  next
    case (Some r)
    obtain off runs where r: "r = (off, runs)"
      by (cases r)
    have e: "jump_entry rcd k = of_nat (4 * h + off)" and off: "off < n"
      and runs: "runs_at (row_data rcd (4 * h) n) off runs"
      using lay Some r by (simp_all add: row_layout_def)
    have "4 * h + off < 2 ^ 32"
      using h n off by simp
    then have "unat (of_nat (4 * h + off) :: 32 word) = 4 * h + off"
      by (rule unat_of_nat_32)
    moreover have "0 < 4 * h + off"
      using k by simp
    ultimately have nz: "jump_entry rcd k \<noteq> 0"
      unfolding e by (metis less_numeral_extra(3) unat_0)
    have sub: "jump_entry rcd k - of_nat (4 * h) = (of_nat off :: 32 word)"
      unfolding e by simp
    have "unat (of_nat off :: 32 word) = off"
      using off n by (intro unat_of_nat_32) simp
    then show ?thesis
      using nz sub off runs Some r by (simp add: table_entry_def)
  qed
  then show "table_entry rcd (4 * h) k = (case row of None \<Rightarrow> INVALID_JUMP | Some (off, runs) \<Rightarrow> of_nat off)"
    and "jump_entry rcd k = 0 \<or> unat (jump_entry rcd k - of_nat (4 * h)) < n"
    and "case row of None \<Rightarrow> True
         | Some (off, runs) \<Rightarrow> off < n \<and> runs_at (row_data rcd (4 * h) n) off runs"
    by simp_all
qed

text \<open>
  C2, as the code has it. Take a payload that is longer than its jump table and shorter
  than \<open>2 ^ 31\<close> bytes, in which every row is empty (jump table entry 0) or has a
  jump table entry that leads to a row of runs inside the row data. \<open>LoadData\<close>
  returns, and it accepts the payload exactly when every row of runs keeps the sum of
  skips and counts below the width after each run but the last, has a sum of at most the
  width after the last run, and has a last run whose two leading bytes are not the last
  two bytes of the data. So, among such payloads, a row whose sum is the width is
  accepted when no earlier run reaches the width and a byte follows the head of the last
  run; a row whose sum exceeds the width is rejected; a row whose sum is below the width
  is not rejected for that.
\<close>

theorem LoadData8_accepts:
  assumes big: "4 * unat (height this) < len0" and small: "len0 < 2 ^ 31"
    and lay: "\<forall>i. i < unat (height this)
                  \<longrightarrow> row_layout rcd_file (4 * unat (height this)) (len0 - 4 * unat (height this)) i (rows i)"
  shows "LoadData8 rcd_file this len0
           = Some (rows_accepted (unat (width this)) (len0 - 4 * unat (height this)) (unat (height this)) rows,
                   rcd_file\<lparr>file_pos := file_pos rcd_file + len0\<rparr>,
                   this\<lparr>table := map (table_entry rcd_file (4 * unat (height this))) [0..<unat (height this)],
                        data := row_data rcd_file (4 * unat (height this)) (len0 - 4 * unat (height this))\<rparr>)"
proof -
  define h where "h = unat (height this)"
  define n where "n = len0 - 4 * h"
  define this1 where "this1 = this\<lparr>table := replicate h 0, data := replicate n 0\<rparr>"
  define this3 where "this3 = this\<lparr>table := map (table_entry rcd_file (4 * h)) [0..<h],
                                    data := row_data rcd_file (4 * h) n\<rparr>"
  have h: "h < 2 ^ 16"
    using unsigned_less [of "height this"] by (simp add: h_def)
  have n: "n < 2 ^ 31" and sum: "4 * h + n = len0"
    using big small by (simp_all add: n_def h_def)
  note entry = row_layout_entry [OF lay [unfolded h_def [symmetric] n_def [symmetric], rule_format] _ h n]
  have h1: "unat (height this1) = h" and t1: "length (table this1) = h"
    by (simp_all add: this1_def h_def)
  have "load_jump_table (rcd_file\<lparr>file_pos := file_pos rcd_file + 4 * 0\<rparr>) this1 (4 * h) n 0
           = (True, rcd_file\<lparr>file_pos := file_pos rcd_file + 4 * unat (height this1)\<rparr>,
              this1\<lparr>table := take 0 (table this1) @ map (table_entry rcd_file (4 * h)) [0..<unat (height this1)]\<rparr>)"
    using entry(2) by (intro load_jump_table_all) (simp_all add: h1 t1)
  then have table: "load_jump_table rcd_file this1 (4 * h) n 0
           = (True, rcd_file\<lparr>file_pos := file_pos rcd_file + 4 * h\<rparr>,
              this1\<lparr>table := map (table_entry rcd_file (4 * h)) [0..<h]\<rparr>)"
    by (simp add: h1)
  have blob: "GetBlob (rcd_file\<lparr>file_pos := file_pos rcd_file + 4 * h\<rparr>) n
                = (row_data rcd_file (4 * h) n, rcd_file\<lparr>file_pos := file_pos rcd_file + len0\<rparr>)"
    by (simp add: GetBlob_at sum add.assoc)
  have this3: "this1\<lparr>table := map (table_entry rcd_file (4 * h)) [0..<h], data := row_data rcd_file (4 * h) n\<rparr> = this3"
    by (simp add: this1_def this3_def)
  have f3: "unat (height this3) = h" "width this3 = width this" "length (table this3) = h"
    "data this3 = row_data rcd_file (4 * h) n" "length (data this3) = n"
    "\<And>k. k < h \<Longrightarrow> table this3 ! k = table_entry rcd_file (4 * h) k"
    by (simp_all add: this3_def h_def length_row_data)
  have "verify_rows this3 0
           = Some (\<forall>k. 0 \<le> k \<and> k < unat (height this3)
                     \<longrightarrow> row_checked (unat (width this3)) (length (data this3)) (rows k))"
  proof (rule verify_rows_layout)
    show "\<forall>k < unat (height this3).
            table this3 ! k = (case rows k of None \<Rightarrow> INVALID_JUMP | Some (off, runs) \<Rightarrow> of_nat off)"
      using entry(1) by (simp add: f3(1,6))
    show "length (table this3) = unat (height this3)"
      by (simp add: f3(1,3))
    show "\<forall>k < unat (height this3).
            case rows k of None \<Rightarrow> True
            | Some (off, runs) \<Rightarrow> off < length (data this3) \<and> runs_at (data this3) off runs"
      unfolding f3(1,4) length_row_data using entry(3) by blast
    show "length (data this3) < 2 ^ 31"
      using n by (simp add: f3(5))
    show "0 \<le> unat (height this3)"
      by simp
  qed
  then have rows: "verify_rows this3 0 = Some (rows_accepted (unat (width this)) n h rows)"
    by (simp add: f3(1,2,5) rows_accepted_def)
  have "LoadData8 rcd_file this len0
           = (case load_jump_table rcd_file this1 (4 * h) n 0 of
                (ok, rcd1, this2) \<Rightarrow>
                  if \<not> ok then Some (False, rcd1, this2)
                  else (let (blob, rcd2) = GetBlob rcd1 n; this3 = this2\<lparr>data := blob\<rparr>
                        in case verify_rows this3 0 of None \<Rightarrow> None
                           | Some ok' \<Rightarrow> Some (ok', rcd2, this3)))"
    using big unfolding LoadData8_def Let_def this1_def h_def n_def by simp
  then have "LoadData8 rcd_file this len0
           = Some (rows_accepted (unat (width this)) n h rows,
                   rcd_file\<lparr>file_pos := file_pos rcd_file + len0\<rparr>, this3)"
    by (simp add: table blob this3 rows)
  then show ?thesis
    by (simp add: this3_def n_def h_def)
qed

theorem LoadData8_accepts_witness:
  "4 * unat (height (new_ImageData8bpp\<lparr>width := 2, height := 1\<rparr>)) < 8
   \<and> (8 :: nat) < 2 ^ 31
   \<and> row_layout (block_reader ''8PXL'' 2 [4, 0, 0, 0, 0x80, 2, 7, 9]) 4 4 0 (example_rows 0)
   \<and> rows_accepted 2 4 1 example_rows
   \<and> LoadData8 (block_reader ''8PXL'' 2 [4, 0, 0, 0, 0x80, 2, 7, 9])
        (new_ImageData8bpp\<lparr>width := 2, height := 1\<rparr>) 8
       = Some (True, (block_reader ''8PXL'' 2 [4, 0, 0, 0, 0x80, 2, 7, 9])\<lparr>file_pos := 8\<rparr>,
               new_ImageData8bpp\<lparr>width := 2, height := 1, table := [0], data := [0x80, 2, 7, 9]\<rparr>)"
proof -
  let ?R = "block_reader ''8PXL'' 2 [4, 0, 0, 0, 0x80, 2, 7, 9]"
  let ?I = "new_ImageData8bpp\<lparr>width := 2, height := 1\<rparr>"
  have a: "4 * unat (height ?I) < 8" and b: "(8 :: nat) < 2 ^ 31"
    by simp_all
  have d: "row_data ?R 4 4 = [0x80, 2, 7, 9]"
    by (simp add: row_data_def reader_simps upt_rec)
  have j: "jump_entry ?R 0 = 4"
    by (simp add: jump_entry_def reader_simps)
  have c: "row_layout ?R 4 4 0 (example_rows 0)"
    by (simp add: row_layout_def example_rows_def d j)
  then have lay: "\<forall>i. i < unat (height ?I)
                  \<longrightarrow> row_layout ?R (4 * unat (height ?I)) (8 - 4 * unat (height ?I)) i (example_rows i)"
    by (simp add: example_rows_def)
  have r: "rows_accepted 2 4 1 example_rows"
    by (simp add: rows_accepted_def row_checked_def example_rows_def run_width_def)
  have fp: "file_pos ?R = 0"
    by (simp add: block_reader_def)
  have t: "table_entry ?R 4 0 = 0"
    by (simp add: table_entry_def j)
  from LoadData8_accepts [OF a b lay]
  have "LoadData8 ?R ?I 8 = Some (True, ?R\<lparr>file_pos := 8\<rparr>,
               new_ImageData8bpp\<lparr>width := 2, height := 1, table := [0], data := [0x80, 2, 7, 9]\<rparr>)"
    using r by (simp add: d t fp)
  with a b c r show ?thesis
    by (intro conjI)
qed

text \<open>
  C2 as stated fails. The row \<open>[0x80, 1, 7]\<close> has the sum 1 in an image of width 2 and
  is accepted; the row \<open>[0x81, 0]\<close> has the sum 1 in an image of width 1, ends with
  the buffer, and is rejected.
\<close>

theorem LoadData8_row_sum_counterexample:
  "LoadData8 (block_reader ''8PXL'' 2 [4, 0, 0, 0, 0x80, 1, 7, 9])
       (new_ImageData8bpp\<lparr>width := 2, height := 1\<rparr>) 8
     = Some (True, (block_reader ''8PXL'' 2 [4, 0, 0, 0, 0x80, 1, 7, 9])\<lparr>file_pos := 8\<rparr>,
             new_ImageData8bpp\<lparr>width := 2, height := 1, table := [0], data := [0x80, 1, 7, 9]\<rparr>)
   \<and> runs_at [0x80, 1, 7, 9] 0 [(0x80, [7])] \<and> run_width (0x80, [7]) = 1
   \<and> LoadData8 (block_reader ''8PXL'' 2 [4, 0, 0, 0, 0x81, 0])
       (new_ImageData8bpp\<lparr>width := 1, height := 1\<rparr>) 6
     = Some (False, (block_reader ''8PXL'' 2 [4, 0, 0, 0, 0x81, 0])\<lparr>file_pos := 6\<rparr>,
             new_ImageData8bpp\<lparr>width := 1, height := 1, table := [0], data := [0x81, 0]\<rparr>)
   \<and> runs_at [0x81, 0] 0 [(0x81, [])] \<and> run_width (0x81, []) = 1"
  by (simp add: LoadData8_def reader_simps new_ImageData8bpp_def INVALID_JUMP_def verify_row.simps
      Let_def upt_rec word_compare run_width_def load_jump_table.simps verify_rows.simps)

subsection \<open>LoadData of a true colour image\<close>

lemma read_line_unfold:
  "read_line dat endp ptr xpos =
     (if ptr < endp then
        (if \<not> ptr < length dat then None
         else if dat ! ptr = 0 then Some (ptr + 1, xpos, True)
         else read_line dat endp (ptr + 1 + run_bytes (dat ! ptr)) (xpos + ucast (dat ! ptr AND 0x3F)))
      else Some (ptr, xpos, False))"
  by (subst read_line.simps) (auto simp: Let_def run_bytes_def)

text \<open>
  The loop over a line adds the counts of its runs to \<open>xpos\<close>; in a buffer of less
  than \<open>2 ^ 26\<close> bytes the sum stays below \<open>2 ^ 32\<close>.
\<close>

lemma read_line_counts:
  assumes "read_line dat endp ptr xpos = Some (ptr', xpos', fin)"
  shows "xpos' = xpos + of_nat (sum_list (run_counts dat endp ptr))"
  using assms
proof (induction "endp - ptr" arbitrary: ptr xpos rule: less_induct)
  case less
  show ?case
  proof (cases "ptr < endp \<and> ptr < length dat \<and> dat ! ptr \<noteq> 0")
    case False
    then have "run_counts dat endp ptr = []"
      by (subst run_counts.simps) simp
    moreover have "xpos' = xpos"
      using less.prems False
      by (subst (asm) read_line_unfold) (auto split: if_splits)
    ultimately show ?thesis
      by simp
  next
    case True
    let ?mode = "dat ! ptr"
    have counts: "run_counts dat endp ptr
                    = unat (?mode AND 0x3F) # run_counts dat endp (ptr + 1 + run_bytes ?mode)"
      using True by (subst run_counts.simps) simp
    have "read_line dat endp ptr xpos
            = read_line dat endp (ptr + 1 + run_bytes ?mode) (xpos + ucast (?mode AND 0x3F))"
      using True by (subst read_line_unfold) simp
    with less.prems
    have "read_line dat endp (ptr + 1 + run_bytes ?mode) (xpos + ucast (?mode AND 0x3F))
            = Some (ptr', xpos', fin)"
      by simp
    moreover have "endp - (ptr + 1 + run_bytes ?mode) < endp - ptr"
      using True by linarith
    ultimately have "xpos' = xpos + ucast (?mode AND 0x3F)
                       + of_nat (sum_list (run_counts dat endp (ptr + 1 + run_bytes ?mode)))"
      by (rule less.hyps [rotated])
    then show ?thesis
      by (simp add: counts)
  qed
qed

lemma run_counts_bound: "sum_list (run_counts dat endp ptr) \<le> 63 * (length dat - ptr)"
proof (induction "length dat - ptr" arbitrary: ptr rule: less_induct)
  case less
  show ?case
  proof (cases "ptr < endp \<and> ptr < length dat \<and> dat ! ptr \<noteq> 0")
    case False
    then have "run_counts dat endp ptr = []"
      by (subst run_counts.simps) simp
    then show ?thesis
      by simp
  next
    case True
    let ?mode = "dat ! ptr"
    have counts: "run_counts dat endp ptr
                    = unat (?mode AND 0x3F) # run_counts dat endp (ptr + 1 + run_bytes ?mode)"
      using True by (subst run_counts.simps) simp
    have "length dat - (ptr + 1 + run_bytes ?mode) < length dat - ptr"
      using True by linarith
    then have "sum_list (run_counts dat endp (ptr + 1 + run_bytes ?mode))
                 \<le> 63 * (length dat - (ptr + 1 + run_bytes ?mode))"
      by (rule less.hyps)
    moreover have "unat (?mode AND 0x3F) \<le> 63"
      by (rule unat_and_63)
    moreover have "63 * (length dat - (ptr + 1 + run_bytes ?mode)) + 63 \<le> 63 * (length dat - ptr)"
      using True by linarith
    ultimately show ?thesis
      unfolding counts by simp
  qed
qed

lemma verify_lines_unfold:
  "verify_lines dat w h ptr lc fin =
     (if ptr < length dat \<and> \<not> fin then
        (if \<not> ptr + 1 < length dat then None
         else if line_end dat ptr > length dat then Some False
         else
           (case read_line dat (line_end dat ptr) (ptr + 2) 0 of
              None \<Rightarrow> None
            | Some (ptr', xpos, finished_line) \<Rightarrow>
                if xpos > ucast w then Some False
                else if \<not> finished_line then Some False
                else if ptr' \<noteq> line_end dat ptr then Some False
                else verify_lines dat w h ptr' (lc + 1) (line_length dat ptr = 0)))
      else if lc \<noteq> uint h then Some False
      else if ptr \<noteq> length dat then Some False
      else Some True)"
proof (cases "ptr < length dat \<and> \<not> fin \<and> ptr + 1 < length dat")
  case False
  then show ?thesis
    by (subst verify_lines.simps) auto
next
  case True
  let ?ll = "(ucast (dat ! ptr) OR push_bit 8 (ucast (dat ! (ptr + 1))) :: 16 word)"
  have l: "line_length dat ptr = unat ?ll"
    using True by (simp add: line_length_def nth_default_def)
  have z: "(?ll = 0) = (line_length dat ptr = 0)"
    unfolding l by (simp add: unat_eq_0)
  have e: "(if line_length dat ptr = 0 then length dat else ptr + unat ?ll) = line_end dat ptr"
    unfolding line_end_def l [symmetric] by simp
  have g: "(line_length dat ptr \<noteq> 0 \<and> length dat < line_end dat ptr) = (length dat < line_end dat ptr)"
    by (auto simp: line_end_def)
  have "verify_lines dat w h ptr lc fin =
     (if ptr < length dat \<and> \<not> fin then
        (if \<not> ptr + 1 < length dat then None
         else if line_length dat ptr \<noteq> 0 \<and> length dat < line_end dat ptr then Some False
         else
           (case read_line dat (line_end dat ptr) (ptr + 2) 0 of
              None \<Rightarrow> None
            | Some (ptr', xpos, finished_line) \<Rightarrow>
                if xpos > ucast w then Some False
                else if \<not> finished_line then Some False
                else if ptr' \<noteq> line_end dat ptr then Some False
                else verify_lines dat w h ptr' (lc + 1) (line_length dat ptr = 0)))
      else if lc \<noteq> uint h then Some False
      else if ptr \<noteq> length dat then Some False
      else Some True)"
    by (subst verify_lines.simps) (simp only: Let_def z e)
  then show ?thesis
    by (simp only: g)
qed

lemma verify_lines_done:
  assumes "verify_lines dat w h ptr lc fin = Some True" and "\<not> (ptr < length dat \<and> \<not> fin)"
  shows "lc = uint h" and "ptr = length dat"
  using assms by (subst (asm) verify_lines_unfold, simp split: if_splits)+

lemma verify_lines_step:
  assumes ok: "verify_lines dat w h ptr lc fin = Some True" and more: "ptr < length dat \<and> \<not> fin"
  shows "line_end dat ptr \<le> length dat"
    and "\<exists>xpos. read_line dat (line_end dat ptr) (ptr + 2) 0 = Some (line_end dat ptr, xpos, True)
                 \<and> \<not> xpos > ucast w"
    and "verify_lines dat w h (line_end dat ptr) (lc + 1) (line_length dat ptr = 0) = Some True"
proof -
  have rest: "\<not> line_end dat ptr > length dat
      \<and> (case read_line dat (line_end dat ptr) (ptr + 2) 0 of
            None \<Rightarrow> None
          | Some (ptr', xpos, finished_line) \<Rightarrow>
              if xpos > ucast w then Some False
              else if \<not> finished_line then Some False
              else if ptr' \<noteq> line_end dat ptr then Some False
              else verify_lines dat w h ptr' (lc + 1) (line_length dat ptr = 0)) = Some True"
    using ok more
    by (subst (asm) verify_lines_unfold) (simp split: if_splits)
  then show "line_end dat ptr \<le> length dat"
    by simp
  from rest obtain ptr' xpos finl where
    r: "read_line dat (line_end dat ptr) (ptr + 2) 0 = Some (ptr', xpos, finl)"
    by (auto split: option.splits)
  with rest have c: "\<not> xpos > ucast w" "finl" "ptr' = line_end dat ptr"
      "verify_lines dat w h ptr' (lc + 1) (line_length dat ptr = 0) = Some True"
    by (auto split: if_splits)
  show "\<exists>xpos. read_line dat (line_end dat ptr) (ptr + 2) 0 = Some (line_end dat ptr, xpos, True)
                 \<and> \<not> xpos > ucast w"
    using r c by auto
  show "verify_lines dat w h (line_end dat ptr) (lc + 1) (line_length dat ptr = 0) = Some True"
    using c by simp
qed

lemma verify_lines_sums:
  assumes "verify_lines dat w h ptr lc fin = Some True" and "length dat < 2 ^ 26"
    and "ptr = line_start dat k" and "lc = int k"
  shows "\<forall>j. k \<le> j \<and> j < unat h \<longrightarrow> line_sum dat j \<le> unat w"
  using assms(1,3,4)
proof (induction "if fin then 0 else Suc (length dat - ptr)" arbitrary: ptr lc fin k rule: less_induct)
  case less
  show ?case
  proof (cases "ptr < length dat \<and> \<not> fin")
    case False
    from verify_lines_done(1) [OF less.prems(1) False] less.prems(3)
    have "int k = int (unat h)"
      by simp
    then have "k = unat h"
      by (simp only: of_nat_eq_iff)
    then show ?thesis
      by simp
  next
    case True
    note st = verify_lines_step [OF less.prems(1) True]
    from st(2) obtain xpos where
      r: "read_line dat (line_end dat ptr) (ptr + 2) 0 = Some (line_end dat ptr, xpos, True)"
      and x: "\<not> xpos > ucast w"
      by blast
    have "xpos = of_nat (sum_list (run_counts dat (line_end dat ptr) (ptr + 2)))"
      using read_line_counts [OF r] by simp
    moreover have "sum_list (run_counts dat (line_end dat ptr) (ptr + 2)) < 2 ^ 32"
    proof -
      have "sum_list (run_counts dat (line_end dat ptr) (ptr + 2)) \<le> 63 * (length dat - (ptr + 2))"
        by (rule run_counts_bound)
      also have "\<dots> \<le> 63 * length dat"
        by simp
      also have "\<dots> < 63 * 2 ^ 26"
        using assms(2) by simp
      also have "\<dots> < (2 :: nat) ^ 32"
        by simp
      finally show ?thesis .
    qed
    ultimately have "unat xpos = sum_list (run_counts dat (line_end dat ptr) (ptr + 2))"
      by (simp add: unat_of_nat)
    with x have this_line: "line_sum dat k \<le> unat w"
      by (simp add: line_sum_def less.prems(2) [symmetric] word_less_nat_alt unat_ucast_16_32)
    have "(if line_length dat ptr = 0 then 0 else Suc (length dat - line_end dat ptr))
            < (if fin then 0 else Suc (length dat - ptr))"
      using True st(1) by (auto simp: line_end_def)
    moreover note st(3)
    moreover have "line_end dat ptr = line_start dat (Suc k)"
      by (simp add: less.prems(2))
    moreover have "lc + 1 = int (Suc k)"
      by (simp add: less.prems(3))
    ultimately have later: "\<forall>j. Suc k \<le> j \<and> j < unat h \<longrightarrow> line_sum dat j \<le> unat w"
      by (rule less.hyps)
    show ?thesis
    proof (intro allI impI)
      fix j
      assume j: "k \<le> j \<and> j < unat h"
      show "line_sum dat j \<le> unat w"
      proof (cases "j = k")
        case True
        then show ?thesis
          using this_line by simp
      next
        case False
        with j have "Suc k \<le> j \<and> j < unat h"
          by simp
        with later show ?thesis
          by blast
      qed
    qed
  qed
qed

text \<open>
  A line that lies inside the buffer is read to its end without a read outside the
  buffer.
\<close>

lemma read_line_returns:
  assumes "endp \<le> length dat"
  shows "\<exists>ptr' xpos' fin. read_line dat endp ptr xpos = Some (ptr', xpos', fin)"
proof (induction "endp - ptr" arbitrary: ptr xpos rule: less_induct)
  case less
  show ?case
  proof (cases "ptr < endp \<and> dat ! ptr \<noteq> 0")
    case False
    then show ?thesis
      using assms by (subst read_line_unfold) auto
  next
    case True
    let ?mode = "dat ! ptr"
    have "read_line dat endp ptr xpos
            = read_line dat endp (ptr + 1 + run_bytes ?mode) (xpos + ucast (?mode AND 0x3F))"
      using True assms by (subst read_line_unfold) simp
    moreover have "endp - (ptr + 1 + run_bytes ?mode) < endp - ptr"
      using True by linarith
    then have "\<exists>ptr' xpos' fin. read_line dat endp (ptr + 1 + run_bytes ?mode) (xpos + ucast (?mode AND 0x3F))
                  = Some (ptr', xpos', fin)"
      by (rule less.hyps)
    ultimately show ?thesis
      by simp
  qed
qed

text \<open>
  A line that is too wide makes the verification return \<open>false\<close>, when no line up
  to it starts at the last byte of the buffer (there the code reads the second byte of
  the length word outside the buffer).
\<close>

lemma verify_lines_wide:
  assumes small: "length dat < 2 ^ 26" and k: "k < unat h" and wide: "unat w < line_sum dat k"
    and "ptr = line_start dat i" and "lc = int i" and "i \<le> k"
    and "\<forall>j. i \<le> j \<and> j \<le> k \<longrightarrow> line_start dat j + 1 \<noteq> length dat"
  shows "verify_lines dat w h ptr lc fin = Some False"
  using assms(4-7)
proof (induction "k - i" arbitrary: ptr lc fin i rule: less_induct)
  case less
  show ?case
  proof (cases "ptr < length dat \<and> \<not> fin")
    case False
    have u: "uint h = int (unat h)"
      by simp
    have "i < unat h"
      using less.prems(3) k by simp
    then have "lc \<noteq> uint h"
      unfolding u less.prems(2) by linarith
    with False show ?thesis
      by (subst verify_lines_unfold) simp
  next
    case True
    have "ptr + 1 \<noteq> length dat"
      using less.prems(1,3,4) by blast
    with True have two: "ptr + 1 < length dat"
      by simp
    show ?thesis
    proof (cases "line_end dat ptr > length dat")
      case True
      with \<open>ptr < length dat \<and> \<not> fin\<close> two show ?thesis
        by (subst verify_lines_unfold) simp
    next
      case False
      then have le: "line_end dat ptr \<le> length dat"
        by simp
      from read_line_returns [OF le] obtain ptr' xpos finl where
        r: "read_line dat (line_end dat ptr) (ptr + 2) 0 = Some (ptr', xpos, finl)"
        by blast
      have unf: "verify_lines dat w h ptr lc fin =
          (if xpos > ucast w then Some False
           else if \<not> finl then Some False
           else if ptr' \<noteq> line_end dat ptr then Some False
           else verify_lines dat w h ptr' (lc + 1) (line_length dat ptr = 0))"
        using True two False r by (subst verify_lines_unfold) simp
      have "xpos = of_nat (sum_list (run_counts dat (line_end dat ptr) (ptr + 2)))"
        using read_line_counts [OF r] by simp
      moreover have "sum_list (run_counts dat (line_end dat ptr) (ptr + 2)) < 2 ^ 32"
      proof -
        have "sum_list (run_counts dat (line_end dat ptr) (ptr + 2)) \<le> 63 * (length dat - (ptr + 2))"
          by (rule run_counts_bound)
        also have "\<dots> \<le> 63 * length dat"
          by simp
        also have "\<dots> < 63 * 2 ^ 26"
          using small by simp
        also have "\<dots> < (2 :: nat) ^ 32"
          by simp
        finally show ?thesis .
      qed
      ultimately have "unat xpos = sum_list (run_counts dat (line_end dat ptr) (ptr + 2))"
        by (simp add: unat_of_nat)
      then have sum: "unat xpos = line_sum dat i"
        by (simp add: line_sum_def less.prems(1) [symmetric])
      show ?thesis
      proof (cases "i = k")
        case True
        with sum wide have "xpos > ucast w"
          by (simp add: word_less_nat_alt unat_ucast_16_32)
        then show ?thesis
          unfolding unf by simp
      next
        case False
        then have "k - Suc i < k - i" and "Suc i \<le> k"
          using less.prems(3) by simp_all
        moreover have "line_end dat ptr = line_start dat (Suc i)"
          by (simp add: less.prems(1))
        moreover have "lc + 1 = int (Suc i)"
          by (simp add: less.prems(2))
        moreover have "\<forall>j. Suc i \<le> j \<and> j \<le> k \<longrightarrow> line_start dat j + 1 \<noteq> length dat"
          using less.prems(4) by simp
        ultimately have "verify_lines dat w h (line_end dat ptr) (lc + 1) (line_length dat ptr = 0) = Some False"
          using less.hyps by blast
        then show ?thesis
          unfolding unf by simp
      qed
    qed
  qed
qed

text \<open>
  C1, as the code has it: when the six bit counts of the runs of a line among the first
  \<open>height\<close> lines of a true colour payload (of less than \<open>2 ^ 26\<close> bytes) sum up
  to more than the width of the image, \<open>LoadData\<close> does not return success; and it
  returns failure, having read the payload, when none of the lines up to that line
  starts at the last byte of the payload.
\<close>

theorem LoadData32_rejects_wide_line:
  assumes "len < 2 ^ 26" and "k < unat (height this)"
    and "unat (width this) < line_sum (fst (GetBlob rcd_file len)) k"
  shows "map_option fst (LoadData32 rcd_file this len) \<noteq> Some True
    \<and> ((\<forall>j. j \<le> k \<longrightarrow> line_start (fst (GetBlob rcd_file len)) j + 1 \<noteq> len)
        \<longrightarrow> LoadData32 rcd_file this len
              = Some (False, rcd_file\<lparr>file_pos := file_pos rcd_file + len\<rparr>,
                      this\<lparr>data32 := fst (GetBlob rcd_file len)\<rparr>))"
proof (intro conjI impI)
  let ?dat = "fst (GetBlob rcd_file len)"
  have l: "length ?dat = len"
    by (simp add: GetBlob_def)
  show "map_option fst (LoadData32 rcd_file this len) \<noteq> Some True"
  proof
    assume "map_option fst (LoadData32 rcd_file this len) = Some True"
    then have "verify_lines ?dat (width this) (height this) 0 0 False = Some True"
      by (auto simp: LoadData32_def Let_def split: prod.splits option.splits)
    moreover have "length ?dat < 2 ^ 26"
      using assms(1) l by simp
    moreover have "0 = line_start ?dat 0" "(0 :: int) = int 0"
      by simp_all
    ultimately have "\<forall>j. 0 \<le> j \<and> j < unat (height this) \<longrightarrow> line_sum ?dat j \<le> unat (width this)"
      by (rule verify_lines_sums)
    with assms(2,3) show False
      by (simp add: not_le [symmetric])
  qed
  assume starts: "\<forall>j. j \<le> k \<longrightarrow> line_start ?dat j + 1 \<noteq> len"
  have "length ?dat < 2 ^ 26"
    using assms(1) l by simp
  moreover note assms(2,3)
  moreover have "0 = line_start ?dat 0" "(0 :: int) = int 0" "0 \<le> k"
    by simp_all
  moreover have "\<forall>j. 0 \<le> j \<and> j \<le> k \<longrightarrow> line_start ?dat j + 1 \<noteq> length ?dat"
    using starts l by simp
  ultimately have "verify_lines ?dat (width this) (height this) 0 0 False = Some False"
    by (rule verify_lines_wide)
  then show "LoadData32 rcd_file this len
              = Some (False, rcd_file\<lparr>file_pos := file_pos rcd_file + len\<rparr>,
                      this\<lparr>data32 := fst (GetBlob rcd_file len)\<rparr>)"
    by (simp add: LoadData32_def Let_def GetBlob_def split: prod.splits)
qed

theorem LoadData32_rejects_wide_line_witness:
  "(10 :: nat) < 2 ^ 26
   \<and> 0 < unat (height (new_ImageData32bpp\<lparr>width := 1, height := 1\<rparr>))
   \<and> unat (width (new_ImageData32bpp\<lparr>width := 1, height := 1\<rparr>))
       < line_sum (fst (GetBlob (block_reader ''32PX'' 1 [0, 0, 2, 1, 2, 3, 4, 5, 6, 0]) 10)) 0
   \<and> line_start (fst (GetBlob (block_reader ''32PX'' 1 [0, 0, 2, 1, 2, 3, 4, 5, 6, 0]) 10)) 0 + 1 \<noteq> 10
   \<and> map_option fst (LoadData32 (block_reader ''32PX'' 1 [0, 0, 2, 1, 2, 3, 4, 5, 6, 0])
                        (new_ImageData32bpp\<lparr>width := 1, height := 1\<rparr>) 10) \<noteq> Some True
   \<and> LoadData32 (block_reader ''32PX'' 1 [0, 0, 2, 1, 2, 3, 4, 5, 6, 0])
         (new_ImageData32bpp\<lparr>width := 1, height := 1\<rparr>) 10
       = Some (False, (block_reader ''32PX'' 1 [0, 0, 2, 1, 2, 3, 4, 5, 6, 0])\<lparr>file_pos := 10\<rparr>,
               new_ImageData32bpp\<lparr>width := 1, height := 1, data32 := [0, 0, 2, 1, 2, 3, 4, 5, 6, 0]\<rparr>)"
proof -
  let ?rcd = "block_reader ''32PX'' 1 [0, 0, 2, 1, 2, 3, 4, 5, 6, 0]"
  let ?img = "new_ImageData32bpp\<lparr>width := 1, height := 1\<rparr>"
  have a: "(10 :: nat) < 2 ^ 26"
    by simp
  have b: "0 < unat (height ?img)"
    by simp
  have c: "unat (width ?img) < line_sum (fst (GetBlob ?rcd 10)) 0"
    by (simp add: line_sum_def line_end_def line_length_def run_counts.simps run_bytes_def
        reader_simps upt_rec Let_def)
  have d: "line_start (fst (GetBlob ?rcd 10)) 0 + 1 \<noteq> 10"
    by simp
  then have e: "\<forall>j. j \<le> 0 \<longrightarrow> line_start (fst (GetBlob ?rcd 10)) j + 1 \<noteq> 10"
    by simp
  have f: "fst (GetBlob ?rcd 10) = [0, 0, 2, 1, 2, 3, 4, 5, 6, 0]"
    by (simp add: reader_simps upt_rec)
  have g: "file_pos ?rcd + 10 = 10"
    by (simp add: block_reader_def)
  from LoadData32_rejects_wide_line [OF a b c] e
  have "map_option fst (LoadData32 ?rcd ?img 10) \<noteq> Some True"
    and "LoadData32 ?rcd ?img 10
           = Some (False, ?rcd\<lparr>file_pos := file_pos ?rcd + 10\<rparr>, ?img\<lparr>data32 := fst (GetBlob ?rcd 10)\<rparr>)"
    by blast+
  then have "map_option fst (LoadData32 ?rcd ?img 10) \<noteq> Some True"
    and "LoadData32 ?rcd ?img 10
           = Some (False, ?rcd\<lparr>file_pos := 10\<rparr>,
                   new_ImageData32bpp\<lparr>width := 1, height := 1, data32 := [0, 0, 2, 1, 2, 3, 4, 5, 6, 0]\<rparr>)"
    unfolding f g by simp_all
  with a b c d show ?thesis
    by (intro conjI)
qed

text \<open>
  C1 as stated fails: a line whose counts sum up to 1 is accepted for an image of
  width 2.
\<close>

theorem LoadData32_narrow_line_counterexample:
  "LoadData32 (block_reader ''32PX'' 1 [0, 0, 1, 10, 20, 30, 0])
       (new_ImageData32bpp\<lparr>width := 2, height := 1\<rparr>) 7
     = Some (True, (block_reader ''32PX'' 1 [0, 0, 1, 10, 20, 30, 0])\<lparr>file_pos := 7\<rparr>,
             new_ImageData32bpp\<lparr>width := 2, height := 1, data32 := [0, 0, 1, 10, 20, 30, 0]\<rparr>)
   \<and> line_sum [0, 0, 1, 10, 20, 30, 0] 0 = 1"
  by (simp add: LoadData32_def reader_simps new_ImageData32bpp_def Let_def upt_rec word_compare
      verify_lines.simps read_line.simps
      line_sum_def line_end_def line_length_def run_counts.simps run_bytes_def)

end
